theory Spec2Isabelle
  imports Main "HOL-Library.Word" "HOL-Library.Signed_Division"
begin

section \<open>Machine integers\<close>

text \<open>
  The kernel's \<^verbatim>\<open>int\<close> is a 32-bit word, \<^verbatim>\<open>s64\<close> (the \<^verbatim>\<open>tv64\<close> member of
  \<^verbatim>\<open>ktime_t\<close>), \<^verbatim>\<open>u64\<close> and, on a 64-bit build, \<^verbatim>\<open>unsigned long\<close> are 64-bit words.
  Addition, subtraction and multiplication wrap; signed comparisons are \<open><s\<close> and
  \<open><=s\<close>; \<open>sint\<close> and \<open>unat\<close> read a word as a signed or an unsigned number.
\<close>

type_synonym c_int = "32 word"
type_synonym s64 = "64 word"
type_synonym u64 = "64 word"
type_synonym ulong = "64 word"
type_synonym ktime_t = "64 word"

definition c_sdiv :: "'a::len word \<Rightarrow> 'a word \<Rightarrow> 'a word" where
  \<comment> \<open>C's \<^verbatim>\<open>/\<close> on signed operands truncates towards zero; the caller checks the divisor.\<close>
  "c_sdiv a b = word_of_int (sint a sdiv sint b)"

section \<open>nohz.c: the target CPU of a domain\<close>

record nohz_conf =
  NR_CPUS :: c_int
  ncpus_per_dom :: c_int
  nohz_on :: "c_int \<Rightarrow> c_int"

definition cpu_nohz_on :: "nohz_conf \<Rightarrow> c_int \<Rightarrow> bool" where
  "cpu_nohz_on conf cpu = (0 <s nohz_on conf cpu)"

definition cpu_get_nohz_target :: "nohz_conf \<Rightarrow> c_int \<Rightarrow> c_int option" where
  \<comment> \<open>\<open>None\<close> is the divide trap of \<^verbatim>\<open>cpu / ncpus_per_dom\<close> at \<^verbatim>\<open>ncpus_per_dom == 0\<close>.\<close>
  "cpu_get_nohz_target conf cpu =
     (if 0 <=s cpu \<and> cpu <s NR_CPUS conf then
        (if nohz_on conf cpu = 0 then Some cpu
         else if ncpus_per_dom conf = 0 then None
         else Some (c_sdiv cpu (ncpus_per_dom conf) * ncpus_per_dom conf))
      else Some cpu)"

definition cpd_set :: "c_int \<Rightarrow> nohz_conf \<Rightarrow> nohz_conf" where
  \<comment> \<open>The sysfs store of \<^verbatim>\<open>ncpus_per_dom\<close>, after \<^verbatim>\<open>sscanf\<close> has read \<open>val\<close>.\<close>
  "cpd_set val conf = (if 0 <s val then conf\<lparr>ncpus_per_dom := val\<rparr> else conf)"

section \<open>tick-sched.c: the jiffies update\<close>

record timebase =
  last_jiffies_update :: ktime_t
  tick_period :: ktime_t
  tick_next_period :: ktime_t
  jiffies_64 :: u64
  do_timer_calls :: "ulong list"

definition ktime_sub :: "ktime_t \<Rightarrow> ktime_t \<Rightarrow> ktime_t" where
  "ktime_sub lhs rhs = lhs - rhs"

definition ktime_add :: "ktime_t \<Rightarrow> ktime_t \<Rightarrow> ktime_t" where
  "ktime_add lhs rhs = lhs + rhs"

definition ktime_add_ns :: "ktime_t \<Rightarrow> u64 \<Rightarrow> ktime_t" where
  "ktime_add_ns kt nsec = kt + nsec"

definition ktime_to_ns :: "ktime_t \<Rightarrow> s64" where
  "ktime_to_ns kt = kt"

definition ktime_divns :: "ktime_t \<Rightarrow> s64 \<Rightarrow> u64 option" where
  \<comment> \<open>The 64-bit form of the macro: a signed division, which traps on a zero divisor.\<close>
  "ktime_divns kt d = (if d = 0 then None else Some (c_sdiv kt d))"

definition do_timer :: "ulong \<Rightarrow> timebase \<Rightarrow> timebase" where
  \<comment> \<open>Modelled from the spec: \<^verbatim>\<open>do_timer\<close> is defined outside the two source files; the
      spec says that the final increment count is applied once to \<open>tick_count\<close>.
      \<open>do_timer_calls\<close> logs the argument of every call.\<close>
  "do_timer ticks tb =
     tb\<lparr>jiffies_64 := jiffies_64 tb + ticks, do_timer_calls := do_timer_calls tb @ [ticks]\<rparr>"

definition tick_do_update_jiffies64 :: "ktime_t \<Rightarrow> timebase \<Rightarrow> timebase option" where
  \<comment> \<open>\<open>None\<close> is the divide trap of \<^verbatim>\<open>ktime_divns\<close>. The sequence lock is taken on one CPU
      at a time: the quick check and the check under the lock read the same values.\<close>
  "tick_do_update_jiffies64 now tb =
     (let delta = ktime_sub now (last_jiffies_update tb) in
      if delta <s tick_period tb then Some tb
      else
        let delta = ktime_sub now (last_jiffies_update tb) in
        if tick_period tb <=s delta then
          let delta = ktime_sub delta (tick_period tb);
              tb = tb\<lparr>last_jiffies_update := ktime_add (last_jiffies_update tb) (tick_period tb)\<rparr>
          in
            (case (if tick_period tb <=s delta then
                     let incr = ktime_to_ns (tick_period tb) in
                     (case ktime_divns delta incr of
                        None \<Rightarrow> None
                      | Some ticks \<Rightarrow>
                          Some (ticks,
                            tb\<lparr>last_jiffies_update :=
                                  ktime_add_ns (last_jiffies_update tb) (incr * ticks)\<rparr>))
                   else Some (0, tb)) of
               None \<Rightarrow> None
             | Some (ticks, tb) \<Rightarrow>
                 let ticks = ticks + 1;
                     tb = do_timer ticks tb
                 in Some (tb\<lparr>tick_next_period :=
                                ktime_add (last_jiffies_update tb) (tick_period tb)\<rparr>))
        else Some tb)"

fun advance_all :: "ktime_t list \<Rightarrow> timebase \<Rightarrow> timebase option" where
  "advance_all [] tb = Some tb"
| "advance_all (now # nows) tb =
     (case tick_do_update_jiffies64 now tb of
        None \<Rightarrow> None
      | Some tb' \<Rightarrow> advance_all nows tb')"

section \<open>tick-sched.c: the state of the tick subsystem\<close>

text \<open>
  \<^verbatim>\<open>struct tick_sched\<close>, \<^verbatim>\<open>struct hrtimer\<close> and the constants below are declared in headers
  outside the two source files; the records list the members that \<^verbatim>\<open>tick-sched.c\<close> reads
  and writes, with the values the kernel headers give the constants.
\<close>

definition TICK_DO_TIMER_NONE :: c_int where
  "TICK_DO_TIMER_NONE = - 1"

definition KTIME_MAX :: s64 where
  "KTIME_MAX = 0x7FFFFFFFFFFFFFFF"

definition LONG_MAX :: ulong where
  "LONG_MAX = 0x7FFFFFFFFFFFFFFF"

definition NEXT_TIMER_MAX_DELTA :: ulong where
  "NEXT_TIMER_MAX_DELTA = 0x3FFFFFFF"

datatype nohz_mode = NOHZ_MODE_INACTIVE | NOHZ_MODE_LOWRES | NOHZ_MODE_HIGHRES

datatype jiffies_whence =
    JIFFIES_SAVED_NONE
  | JIFFIES_SAVED_IDLE
  | JIFFIES_SAVED_USER
  | JIFFIES_SAVED_SYS
  | JIFFIES_SAVED_invalid c_int  \<comment> \<open>any other value of the integer member\<close>

record hrtimer =
  hrtimer_get_expires :: ktime_t
  hrtimer_active :: bool

record tick_sched =
  sched_timer :: hrtimer
  check_clocks :: ulong
  nohz_mode :: nohz_mode
  last_tick :: ktime_t
  inidle :: bool
  tick_stopped :: bool
  idle_calls :: ulong
  idle_sleeps :: ulong
  idle_active :: bool
  idle_entrytime :: ktime_t
  idle_waketime :: ktime_t
  idle_exittime :: ktime_t
  idle_sleeptime :: ktime_t
  iowait_sleeptime :: ktime_t
  sleep_length :: ktime_t
  ts_last_jiffies :: ulong  \<comment> \<open>the member \<^verbatim>\<open>last_jiffies\<close>\<close>
  ts_next_jiffies :: ulong  \<comment> \<open>the member \<^verbatim>\<open>next_jiffies\<close>\<close>
  idle_expires :: ktime_t
  do_timer_last :: bool
  user_nohz :: bool
  saved_jiffies :: ulong
  saved_jiffies_whence :: jiffies_whence

text \<open>
  Calls that leave the two source files are recorded, in order, in a trace. What the
  timer hardware answers is an input of the call that asks (see \<open>env\<close> below).
\<close>

datatype call =
    Hrtimer_start ktime_t
  | Hrtimer_cancel
  | Tick_program_event ktime_t
  | Raise_timer_softirq
  | Account_idle_ticks ulong
  | Account_user_ticks ulong
  | Account_system_ticks ulong
  | Rcu_user_enter
  | Rcu_user_enter_irq
  | Rcu_user_exit
  | Rcu_user_exit_irq
  | Select_nohz_load_balancer c_int
  | Sched_clock_idle_sleep_event
  | Touch_softlockup_watchdog
  | Printk_softirq_pending "32 word"
  | Warn_on_once

record cpu_local =
  tick_cpu_sched :: tick_sched
  next_event :: ktime_t  \<comment> \<open>\<^verbatim>\<open>tick_cpu_device.evtdev->next_event\<close>\<close>
  nohz_task_ext_qs :: c_int
  TIF_NOHZ :: bool  \<comment> \<open>the thread flag of the task running on this CPU\<close>

record kernel =
  xtime :: timebase
  tick_do_timer_cpu :: c_int
  nr_cpus_user_nohz :: c_int
  tick_nohz_enabled :: bool
  ratelimit :: c_int  \<comment> \<open>the function-static counter of \<^verbatim>\<open>can_stop_idle_tick\<close>\<close>
  per_cpu :: "c_int \<Rightarrow> cpu_local"
  calls :: "call list"

text \<open>
  Stores of other CPUs that land between two accesses of the running CPU to the shared
  variables: a store to \<^verbatim>\<open>tick_do_timer_cpu\<close>, or another CPU setting or clearing its
  \<^verbatim>\<open>user_nohz\<close> marker together with the counter, as its own
  \<^verbatim>\<open>can_stop_adaptive_tick\<close> does.
\<close>

datatype env_step =
    Env_quiet
  | Env_store_do_timer_cpu c_int
  | Env_user_nohz c_int bool

record env =
  max_deferment :: u64  \<comment> \<open>\<^verbatim>\<open>timekeeping_max_deferment()\<close>\<close>
  rcu_needs_cpu :: bool
  printk_needs_cpu :: bool
  arch_needs_cpu :: bool
  get_next_timer_interrupt :: "ulong \<Rightarrow> ulong"
  is_idle_task :: bool  \<comment> \<open>\<^verbatim>\<open>is_idle_task(current)\<close>\<close>
  cpuset_cpu_adaptive_nohz :: bool  \<comment> \<open>of the running CPU\<close>
  cpuset_adaptive_nohz :: bool
  interference :: "env_step list"
  hrtimer_armed :: bool  \<comment> \<open>\<^verbatim>\<open>hrtimer_active()\<close> right after \<^verbatim>\<open>hrtimer_start()\<close>\<close>
  program_event_ret :: c_int  \<comment> \<open>what \<^verbatim>\<open>tick_program_event()\<close> returns\<close>
  ktime_get_retry :: ktime_t  \<comment> \<open>\<^verbatim>\<open>ktime_get()\<close> after an arm that came too late\<close>
  cpu_online :: bool
  need_resched :: bool
  local_softirq_pending :: "32 word"
  sched_can_stop_tick :: bool
  posix_cpu_timers_running :: bool
  rcu_pending :: bool
  irq_regs :: "bool option"  \<comment> \<open>\<^verbatim>\<open>get_irq_regs()\<close>: \<open>None\<close> is NULL, \<open>Some u\<close> has \<^verbatim>\<open>user_mode(regs) = u\<close>\<close>
  current_mm :: bool  \<comment> \<open>\<^verbatim>\<open>current->mm != NULL\<close>\<close>
  nr_iowait_cpu :: ulong
  rearm :: "(bool \<times> ktime_t) list"

definition ts_of :: "kernel \<Rightarrow> c_int \<Rightarrow> tick_sched" where
  \<comment> \<open>\<^verbatim>\<open>&per_cpu(tick_cpu_sched, cpu)\<close>\<close>
  "ts_of k cpu = tick_cpu_sched (per_cpu k cpu)"

definition set_ts :: "c_int \<Rightarrow> tick_sched \<Rightarrow> kernel \<Rightarrow> kernel" where
  "set_ts cpu ts k = k\<lparr>per_cpu := (per_cpu k)(cpu := (per_cpu k cpu)\<lparr>tick_cpu_sched := ts\<rparr>)\<rparr>"

definition trace :: "call \<Rightarrow> kernel \<Rightarrow> kernel" where
  "trace c k = k\<lparr>calls := calls k @ [c]\<rparr>"

definition jiffies :: "kernel \<Rightarrow> ulong" where
  "jiffies k = jiffies_64 (xtime k)"

definition atomic_inc :: "kernel \<Rightarrow> kernel" where
  "atomic_inc k = k\<lparr>nr_cpus_user_nohz := nr_cpus_user_nohz k + 1\<rparr>"

definition atomic_add_negative :: "c_int \<Rightarrow> kernel \<Rightarrow> bool \<times> kernel" where
  \<comment> \<open>adds and tells whether the result is negative\<close>
  "atomic_add_negative i k =
     (let v = nr_cpus_user_nohz k + i in (v <s 0, k\<lparr>nr_cpus_user_nohz := v\<rparr>))"

definition WARN_ON_ONCE :: "bool \<Rightarrow> kernel \<Rightarrow> kernel" where
  \<comment> \<open>The trace gets an entry every time the condition of a \<^verbatim>\<open>WARN_ON_ONCE\<close> holds. The
      macro's latch \<^verbatim>\<open>__warned\<close>, one per call site, which lets only the first of them
      print, is not part of the state: an entry after the first of a call site stands for
      a condition that held and a message the kernel left out.\<close>
  "WARN_ON_ONCE cond k = (if cond then trace Warn_on_once k else k)"

definition clear_user_nohz :: "c_int \<Rightarrow> kernel \<Rightarrow> kernel" where
  \<comment> \<open>The block shared by \<^verbatim>\<open>tick_nohz_start_idle\<close>, \<^verbatim>\<open>can_stop_adaptive_tick\<close> and
      \<^verbatim>\<open>tick_nohz_restart_adaptive\<close>: clear the marker and decrement the counter.\<close>
  "clear_user_nohz cpu k =
     (let k = set_ts cpu ((ts_of k cpu)\<lparr>user_nohz := False\<rparr>) k;
          (neg, k) = atomic_add_negative (- 1) k
      in WARN_ON_ONCE neg k)"

section \<open>tick-sched.c: the timekeeping duty\<close>

fun env_apply :: "env_step \<Rightarrow> kernel \<Rightarrow> kernel" where
  "env_apply Env_quiet k = k"
| "env_apply (Env_store_do_timer_cpu c) k = k\<lparr>tick_do_timer_cpu := c\<rparr>"
| "env_apply (Env_user_nohz c b) k =
     (if user_nohz (ts_of k c) = b then k
      else if b then atomic_inc (set_ts c ((ts_of k c)\<lparr>user_nohz := True\<rparr>) k)
      else clear_user_nohz c k)"

definition interfere :: "env_step list \<Rightarrow> kernel \<Rightarrow> env_step list \<times> kernel" where
  \<comment> \<open>what the other CPUs did since the last access of this CPU to a shared variable\<close>
  "interfere sched k = (case sched of [] \<Rightarrow> ([], k) | e # es \<Rightarrow> (es, env_apply e k))"

definition update_do_timer_cpu :: "c_int \<Rightarrow> c_int \<Rightarrow> kernel \<Rightarrow> c_int \<times> kernel" where
  \<comment> \<open>\<^verbatim>\<open>cmpxchg(&tick_do_timer_cpu, current_handler, new_handler)\<close>\<close>
  "update_do_timer_cpu current_handler new_handler k =
     (tick_do_timer_cpu k,
      if tick_do_timer_cpu k = current_handler then k\<lparr>tick_do_timer_cpu := new_handler\<rparr>
      else k)"

datatype pass_result = Return c_int | Repeat

definition check_drop_timer_duty_pass ::
  "c_int \<Rightarrow> env \<Rightarrow> env_step list \<Rightarrow> kernel \<Rightarrow> pass_result \<times> env_step list \<times> kernel" where
  \<comment> \<open>One pass from the label \<^verbatim>\<open>repeat\<close> to a \<^verbatim>\<open>return\<close> or a \<^verbatim>\<open>goto repeat\<close>.\<close>
  "check_drop_timer_duty_pass cpu e sched k =
     (let (sched, k) = interfere sched k in
      if 0 <s nr_cpus_user_nohz k then
        let (sched, k) = interfere sched k;
            curr_handler = tick_do_timer_cpu k
        in
          if curr_handler = cpu then (Return cpu, sched, k)
          else
            let (sched, k) = interfere sched k;
                new_handler =
                  (if curr_handler = TICK_DO_TIMER_NONE
                      \<or> (user_nohz (ts_of k curr_handler)
                          \<and> (is_idle_task e \<or> \<not> cpuset_cpu_adaptive_nohz e))
                   then cpu else curr_handler);
                (sched, k) = interfere sched k;
                (prev_handler, k) = update_do_timer_cpu curr_handler new_handler k
            in
              if new_handler \<noteq> TICK_DO_TIMER_NONE then
                (if prev_handler = curr_handler then (Return new_handler, sched, k)
                 else (Repeat, sched, k))
              else
                (Return (if prev_handler = cpu then TICK_DO_TIMER_NONE else prev_handler),
                 sched, k)
      else
        let curr_handler = cpu;
            new_handler = TICK_DO_TIMER_NONE;
            (sched, k) = interfere sched k;
            (prev_handler, k) = update_do_timer_cpu curr_handler new_handler k;
            (sched, k) = interfere sched k
        in
          if 0 <s nr_cpus_user_nohz k then (Repeat, sched, k)
          else
            (Return (if prev_handler = cpu then TICK_DO_TIMER_NONE else prev_handler),
             sched, k))"

record duty_result =
  duty_handler :: c_int  \<comment> \<open>the value returned\<close>
  duty_nrepeat :: c_int  \<comment> \<open>the local \<^verbatim>\<open>nrepeat\<close> when the function returns\<close>
  duty_warned :: bool  \<comment> \<open>whether \<^verbatim>\<open>WARN_ON_ONCE(++nrepeat > 1)\<close> fired\<close>
  duty_sched :: "env_step list"  \<comment> \<open>the stores of other CPUs still to come\<close>
  duty_kernel :: kernel

function check_drop_timer_duty_from ::
  "c_int \<Rightarrow> bool \<Rightarrow> c_int \<Rightarrow> env \<Rightarrow> env_step list \<Rightarrow> kernel \<Rightarrow> duty_result" where
  "check_drop_timer_duty_from nrepeat warned cpu e sched k =
     (let nrepeat = nrepeat + 1;
          k = WARN_ON_ONCE (1 <s nrepeat) k;
          warned = (warned \<or> 1 <s nrepeat)
      in case check_drop_timer_duty_pass cpu e sched k of
           (Return r, sched', k') \<Rightarrow>
             \<lparr>duty_handler = r, duty_nrepeat = nrepeat, duty_warned = warned,
              duty_sched = sched', duty_kernel = k'\<rparr>
         | (Repeat, sched', k') \<Rightarrow>
             check_drop_timer_duty_from nrepeat warned cpu e sched' k')"
  by pat_completeness auto

text \<open>
  The loop is not bounded in the source. It ends in the model because a pass that
  no store of another CPU disturbs returns, and every other pass uses up part of the
  finite list of such stores.
\<close>

lemma interfere_eq:
  "interfere sched k = (sched', k') \<longleftrightarrow>
     sched' = tl sched \<and> k' = (case sched of [] \<Rightarrow> k | e # _ \<Rightarrow> env_apply e k)"
  by (auto simp: interfere_def split: list.splits)

lemma interfere_Nil [simp]: "interfere [] k = ([], k)"
  by (simp add: interfere_def)

lemma interfere_Cons [simp]: "interfere (e # es) k = (es, env_apply e k)"
  by (simp add: interfere_def)

lemma pass_length:
  "check_drop_timer_duty_pass cpu e sched k = (r, sched', k') \<Longrightarrow> sched \<noteq> [] \<Longrightarrow>
     length sched' < length sched"
  unfolding check_drop_timer_duty_pass_def Let_def update_do_timer_cpu_def
  by (cases sched) (auto simp: interfere_eq split: prod.splits if_splits)

lemma pass_quiet_returns:
  "check_drop_timer_duty_pass cpu e [] k = (r, sched', k') \<Longrightarrow> r \<noteq> Repeat"
  unfolding check_drop_timer_duty_pass_def Let_def update_do_timer_cpu_def
  by (auto split: prod.splits if_splits)

lemma pass_repeat_shorter:
  assumes "(Repeat, sched', k') = check_drop_timer_duty_pass cpu e sched k"
  shows "length sched' < length sched"
proof -
  have p: "check_drop_timer_duty_pass cpu e sched k = (Repeat, sched', k')"
    using assms by simp
  have "sched \<noteq> []" using p pass_quiet_returns by blast
  with p show ?thesis by (rule pass_length)
qed

termination check_drop_timer_duty_from
  by (relation "measure (\<lambda>(nrepeat, warned, cpu, e, sched, k). length sched)")
     (auto dest: pass_repeat_shorter)

definition check_drop_timer_duty :: "c_int \<Rightarrow> env \<Rightarrow> kernel \<Rightarrow> duty_result" where
  \<comment> \<open>\<^verbatim>\<open>nrepeat\<close> starts at \<open>-1\<close>; the stores of other CPUs are those of \<open>interference e\<close>.\<close>
  "check_drop_timer_duty cpu e k =
     check_drop_timer_duty_from (- 1) False cpu e (interference e) k"

section \<open>tick-sched.c: idle time statistics\<close>

definition ktime_to_us :: "ktime_t \<Rightarrow> s64" where
  \<comment> \<open>nanoseconds to microseconds, rounded down, as the header's conversion through
      \<^verbatim>\<open>struct timeval\<close> does\<close>
  "ktime_to_us kt = word_of_int (sint kt div 1000)"

definition update_ts_time_stats ::
  "c_int \<Rightarrow> ktime_t \<Rightarrow> bool \<Rightarrow> env \<Rightarrow> kernel \<Rightarrow> u64 option \<times> kernel" where
  \<comment> \<open>\<open>wants\<close> says that \<^verbatim>\<open>last_update_time\<close> is not NULL; the first component is what is
      stored through the pointer.\<close>
  "update_ts_time_stats cpu now wants e k =
     (let ts = ts_of k cpu;
          ts = (if idle_active ts then
                  let delta = ktime_sub now (idle_entrytime ts);
                      ts = (if 0 < nr_iowait_cpu e
                            then ts\<lparr>iowait_sleeptime := ktime_add (iowait_sleeptime ts) delta\<rparr>
                            else ts\<lparr>idle_sleeptime := ktime_add (idle_sleeptime ts) delta\<rparr>)
                  in ts\<lparr>idle_entrytime := now\<rparr>
                else ts)
      in (if wants then Some (ktime_to_us now) else None, set_ts cpu ts k))"

definition tick_nohz_stop_idle :: "c_int \<Rightarrow> ktime_t \<Rightarrow> env \<Rightarrow> kernel \<Rightarrow> kernel" where
  "tick_nohz_stop_idle cpu now e k =
     (let (_, k) = update_ts_time_stats cpu now False e k
      in set_ts cpu ((ts_of k cpu)\<lparr>idle_active := False\<rparr>) k)"

definition tick_nohz_start_idle :: "c_int \<Rightarrow> ktime_t \<Rightarrow> kernel \<Rightarrow> kernel" where
  \<comment> \<open>\<open>now\<close> is the value of \<^verbatim>\<open>ktime_get()\<close>, which the function also returns.\<close>
  "tick_nohz_start_idle cpu now k =
     (let k = set_ts cpu ((ts_of k cpu)\<lparr>idle_entrytime := now\<rparr>) k;
          k = (if user_nohz (ts_of k cpu) then clear_user_nohz cpu k else k);
          k = set_ts cpu ((ts_of k cpu)\<lparr>idle_active := True\<rparr>) k
      in trace Sched_clock_idle_sleep_event k)"

definition get_cpu_idle_time_us ::
  "c_int \<Rightarrow> ktime_t \<Rightarrow> bool \<Rightarrow> env \<Rightarrow> kernel \<Rightarrow> u64 \<times> u64 option \<times> kernel" where
  \<comment> \<open>the value returned, the value stored through \<^verbatim>\<open>last_update_time\<close>, the state;
      \<open>now\<close> is \<^verbatim>\<open>ktime_get()\<close>\<close>
  "get_cpu_idle_time_us cpu now wants e k =
     (if \<not> tick_nohz_enabled k then (- 1, None, k)
      else if wants then
        let (stored, k) = update_ts_time_stats cpu now True e k
        in (ktime_to_us (idle_sleeptime (ts_of k cpu)), stored, k)
      else
        let ts = ts_of k cpu;
            idle = (if idle_active ts \<and> nr_iowait_cpu e = 0
                    then ktime_add (idle_sleeptime ts) (ktime_sub now (idle_entrytime ts))
                    else idle_sleeptime ts)
        in (ktime_to_us idle, None, k))"

definition get_cpu_iowait_time_us ::
  "c_int \<Rightarrow> ktime_t \<Rightarrow> bool \<Rightarrow> env \<Rightarrow> kernel \<Rightarrow> u64 \<times> u64 option \<times> kernel" where
  "get_cpu_iowait_time_us cpu now wants e k =
     (if \<not> tick_nohz_enabled k then (- 1, None, k)
      else if wants then
        let (stored, k) = update_ts_time_stats cpu now True e k
        in (ktime_to_us (iowait_sleeptime (ts_of k cpu)), stored, k)
      else
        let ts = ts_of k cpu;
            iowait = (if idle_active ts \<and> 0 < nr_iowait_cpu e
                      then ktime_add (iowait_sleeptime ts) (ktime_sub now (idle_entrytime ts))
                      else iowait_sleeptime ts)
        in (ktime_to_us iowait, None, k))"

section \<open>tick-sched.c: stopping the tick\<close>

text \<open>
  Modelled from the spec: the timer hardware (\<^verbatim>\<open>hrtimer_start\<close>, \<^verbatim>\<open>hrtimer_cancel\<close>,
  \<^verbatim>\<open>hrtimer_forward\<close>, \<^verbatim>\<open>tick_program_event\<close>) is outside the two source files. Following
  the spec's \<open>program_timer\<close>, \<open>cancel_timer\<close> and \<open>timer_is_armed\<close>: programming a
  deadline makes it the armed expiry of the CPU's event device and is answered by
  "armed" or "already past" (an input of the call); cancelling disarms the timer;
  forwarding moves the expiry past \<open>now\<close> by whole periods.
\<close>

definition hrtimer_start :: "c_int \<Rightarrow> ktime_t \<Rightarrow> bool \<Rightarrow> kernel \<Rightarrow> kernel" where
  "hrtimer_start cpu tim armed k =
     (let k = set_ts cpu ((ts_of k cpu)\<lparr>sched_timer := \<lparr>hrtimer_get_expires = tim, hrtimer_active = armed\<rparr>\<rparr>) k;
          k = k\<lparr>per_cpu := (per_cpu k)(cpu := (per_cpu k cpu)\<lparr>next_event := tim\<rparr>)\<rparr>
      in trace (Hrtimer_start tim) k)"

definition hrtimer_cancel :: "c_int \<Rightarrow> kernel \<Rightarrow> kernel" where
  "hrtimer_cancel cpu k =
     (let ts = ts_of k cpu;
          k = set_ts cpu (ts\<lparr>sched_timer := (sched_timer ts)\<lparr>hrtimer_active := False\<rparr>\<rparr>) k
      in trace Hrtimer_cancel k)"

definition tick_program_event :: "c_int \<Rightarrow> ktime_t \<Rightarrow> kernel \<Rightarrow> kernel" where
  "tick_program_event cpu tim k =
     trace (Tick_program_event tim)
       (k\<lparr>per_cpu := (per_cpu k)(cpu := (per_cpu k cpu)\<lparr>next_event := tim\<rparr>)\<rparr>)"

definition hrtimer_forward :: "hrtimer \<Rightarrow> ktime_t \<Rightarrow> ktime_t \<Rightarrow> hrtimer option" where
  \<comment> \<open>\<open>None\<close> is the divide trap at a zero interval.\<close>
  "hrtimer_forward timer now interval =
     (let delta = ktime_sub now (hrtimer_get_expires timer) in
      if delta <s 0 then Some timer
      else if interval = 0 then None
      else Some (timer\<lparr>hrtimer_get_expires :=
                    hrtimer_get_expires timer + (c_sdiv delta interval + 1) * interval\<rparr>))"

definition stop_tick_out ::
  "ktime_t \<Rightarrow> c_int \<Rightarrow> ulong \<Rightarrow> ulong \<Rightarrow> ktime_t \<Rightarrow> kernel \<Rightarrow> ktime_t \<times> kernel" where
  \<comment> \<open>the label \<^verbatim>\<open>out\<close> of \<^verbatim>\<open>tick_nohz_stop_sched_tick\<close>\<close>
  "stop_tick_out now cpu next_j last_j ret k =
     (ret, set_ts cpu ((ts_of k cpu)\<lparr>ts_next_jiffies := next_j, ts_last_jiffies := last_j,
              sleep_length := ktime_sub (next_event (per_cpu k cpu)) now\<rparr>) k)"

definition stop_tick_delta :: "env \<Rightarrow> kernel \<Rightarrow> ulong \<times> ulong \<times> ulong" where
  \<comment> \<open>\<^verbatim>\<open>last_jiffies\<close>, \<^verbatim>\<open>next_jiffies\<close> and \<^verbatim>\<open>delta_jiffies\<close>\<close>
  "stop_tick_delta e k =
     (let last_j = jiffies k in
      if rcu_needs_cpu e \<or> printk_needs_cpu e \<or> arch_needs_cpu e then (last_j, last_j + 1, 1)
      else let next_j = get_next_timer_interrupt e last_j in (last_j, next_j, next_j - last_j))"

definition stop_tick_expires ::
  "c_int \<Rightarrow> c_int \<Rightarrow> c_int \<Rightarrow> ulong \<Rightarrow> env \<Rightarrow> kernel \<Rightarrow> ktime_t \<times> kernel" where
  \<comment> \<open>From the comment "If this cpu is the one which had the do_timer() duty last" to the
      computed \<^verbatim>\<open>expires\<close>: the sleep is limited to \<^verbatim>\<open>timekeeping_max_deferment()\<close> or not,
      and \<^verbatim>\<open>do_timer_last\<close> is updated.\<close>
  "stop_tick_expires cpu prev_handler new_handler delta_jiffies e k =
     (let ts = ts_of k cpu;
          time_delta = max_deferment e;
          (time_delta, ts) =
            (if prev_handler = cpu then (time_delta, ts\<lparr>do_timer_last := True\<rparr>)
             else if new_handler \<noteq> TICK_DO_TIMER_NONE
               then (KTIME_MAX, ts\<lparr>do_timer_last := False\<rparr>)
             else if \<not> do_timer_last ts then (KTIME_MAX, ts)
             else (time_delta, ts));
          time_delta =
            (if delta_jiffies < NEXT_TIMER_MAX_DELTA
             then min time_delta (tick_period (xtime k) * delta_jiffies)
             else time_delta);
          expires =
            (if time_delta < KTIME_MAX
             then ktime_add_ns (last_jiffies_update (xtime k)) time_delta
             else KTIME_MAX)
      in (expires, set_ts cpu ts k))"

definition tick_nohz_stop_sched_tick ::
  "ktime_t \<Rightarrow> c_int \<Rightarrow> env \<Rightarrow> kernel \<Rightarrow> (ktime_t \<times> kernel) option" where
  \<comment> \<open>\<open>None\<close> is the divide trap of the jiffies update.\<close>
  "tick_nohz_stop_sched_tick now cpu e k =
     (let (last_j, next_j, delta_jiffies) = stop_tick_delta e k in
      if \<not> tick_stopped (ts_of k cpu) \<and> delta_jiffies = 1
      then Some (stop_tick_out now cpu next_j last_j 0 k)
      else if 1 <=s delta_jiffies then
        let prev_handler = tick_do_timer_cpu k;
            duty = check_drop_timer_duty cpu e k;
            k = duty_kernel duty
        in
          if duty_handler duty = cpu then Some (stop_tick_out now cpu next_j last_j 0 k)
          else
            let (expires, k) =
                  stop_tick_expires cpu prev_handler (duty_handler duty) delta_jiffies e k
            in
              if tick_stopped (ts_of k cpu) \<and> expires = next_event (per_cpu k cpu)
              then Some (stop_tick_out now cpu next_j last_j 0 k)
              else
                let ret = expires;
                    ts = ts_of k cpu;
                    k = (if \<not> tick_stopped ts
                         then set_ts cpu (ts\<lparr>last_tick := hrtimer_get_expires (sched_timer ts),
                                              tick_stopped := True\<rparr>) k
                         else k)
                in
                  if expires = KTIME_MAX then
                    Some (stop_tick_out now cpu next_j last_j ret
                            (if nohz_mode (ts_of k cpu) = NOHZ_MODE_HIGHRES
                             then hrtimer_cancel cpu k else k))
                  else
                    let (in_time, k) =
                          (if nohz_mode (ts_of k cpu) = NOHZ_MODE_HIGHRES
                           then (hrtimer_armed e, hrtimer_start cpu expires (hrtimer_armed e) k)
                           else (program_event_ret e = 0, tick_program_event cpu expires k))
                    in
                      if in_time then Some (stop_tick_out now cpu next_j last_j ret k)
                      else
                        (case tick_do_update_jiffies64 (ktime_get_retry e) (xtime k) of
                           None \<Rightarrow> None
                         | Some tb \<Rightarrow>
                             Some (stop_tick_out now cpu next_j last_j ret
                                     (trace Raise_timer_softirq (k\<lparr>xtime := tb\<rparr>))))
      else Some (stop_tick_out now cpu next_j last_j 0 (trace Raise_timer_softirq k)))"

definition can_stop_idle_tick :: "c_int \<Rightarrow> env \<Rightarrow> kernel \<Rightarrow> bool \<times> kernel" where
  "can_stop_idle_tick cpu e k =
     (let k = (if \<not> cpu_online e \<and> cpu = tick_do_timer_cpu k
               then k\<lparr>tick_do_timer_cpu := TICK_DO_TIMER_NONE\<rparr> else k)
      in
        if nohz_mode (ts_of k cpu) = NOHZ_MODE_INACTIVE then (False, k)
        else if need_resched e then (False, k)
        else if local_softirq_pending e \<noteq> 0 \<and> cpu_online e then
          (False,
           if ratelimit k <s 10
           then (trace (Printk_softirq_pending (local_softirq_pending e)) k)
                  \<lparr>ratelimit := ratelimit k + 1\<rparr>
           else k)
        else (True, k))"

definition idle_enter_stopped :: "bool \<Rightarrow> c_int \<Rightarrow> ktime_t \<times> kernel \<Rightarrow> kernel" where
  \<comment> \<open>what \<^verbatim>\<open>__tick_nohz_idle_enter\<close> does after \<^verbatim>\<open>tick_nohz_stop_sched_tick\<close> has returned\<close>
  "idle_enter_stopped was_stopped cpu r =
     (let (expires, k) = r;
          k = (if 0 <s expires
               then set_ts cpu ((ts_of k cpu)\<lparr>idle_sleeps := idle_sleeps (ts_of k cpu) + 1,
                                            idle_expires := expires\<rparr>) k
               else k)
      in
        if \<not> was_stopped \<and> tick_stopped (ts_of k cpu)
        then trace (Select_nohz_load_balancer 1)
               (set_ts cpu ((ts_of k cpu)
                  \<lparr>saved_jiffies := ts_last_jiffies (ts_of k cpu),
                   saved_jiffies_whence := JIFFIES_SAVED_IDLE\<rparr>) k)
        else k)"

definition tick_nohz_idle_enter_inner :: "c_int \<Rightarrow> ktime_t \<Rightarrow> env \<Rightarrow> kernel \<Rightarrow> kernel option" where
  \<comment> \<open>\<^verbatim>\<open>__tick_nohz_idle_enter\<close>; \<open>now\<close> is the \<^verbatim>\<open>ktime_get()\<close> of \<^verbatim>\<open>tick_nohz_start_idle\<close>.\<close>
  "tick_nohz_idle_enter_inner cpu now e k =
     (let k = tick_nohz_start_idle cpu now k;
          (can, k) = can_stop_idle_tick cpu e k
      in
        if can then
          let was_stopped = tick_stopped (ts_of k cpu);
              k = set_ts cpu ((ts_of k cpu)\<lparr>idle_calls := idle_calls (ts_of k cpu) + 1\<rparr>) k
          in map_option (idle_enter_stopped was_stopped cpu)
               (tick_nohz_stop_sched_tick now cpu e k)
        else Some k)"

fun can_stop_idle_tick_all :: "(c_int \<times> env) list \<Rightarrow> kernel \<Rightarrow> kernel" where
  \<comment> \<open>a run of calls, on any CPUs\<close>
  "can_stop_idle_tick_all [] k = k"
| "can_stop_idle_tick_all ((cpu, e) # rest) k =
     can_stop_idle_tick_all rest (snd (can_stop_idle_tick cpu e k))"

fun is_softirq_printk :: "call \<Rightarrow> bool" where
  "is_softirq_printk (Printk_softirq_pending _) = True"
| "is_softirq_printk _ = False"

section \<open>tick-sched.c: the adaptive tick of a busy CPU\<close>

definition can_stop_adaptive_tick :: "c_int \<Rightarrow> env \<Rightarrow> kernel \<Rightarrow> bool \<times> kernel" where
  "can_stop_adaptive_tick cpu e k =
     (let ret = \<not> (\<not> sched_can_stop_tick e \<or> posix_cpu_timers_running e \<or> rcu_pending e);
          ts = ts_of k cpu
      in
        if ret \<and> \<not> user_nohz ts
          then (ret, atomic_inc (set_ts cpu (ts\<lparr>user_nohz := True\<rparr>) k))
        else if \<not> ret \<and> user_nohz ts
          then (ret, clear_user_nohz cpu k)
        else (ret, k))"

definition set_thread_flag_TIF_NOHZ :: "c_int \<Rightarrow> bool \<Rightarrow> kernel \<Rightarrow> kernel" where
  \<comment> \<open>\<^verbatim>\<open>set_thread_flag(TIF_NOHZ)\<close> and \<^verbatim>\<open>clear_thread_flag(TIF_NOHZ)\<close>\<close>
  "set_thread_flag_TIF_NOHZ cpu b k =
     k\<lparr>per_cpu := (per_cpu k)(cpu := (per_cpu k cpu)\<lparr>TIF_NOHZ := b\<rparr>)\<rparr>"

definition set_nohz_task_ext_qs :: "c_int \<Rightarrow> c_int \<Rightarrow> kernel \<Rightarrow> kernel" where
  "set_nohz_task_ext_qs cpu v k =
     k\<lparr>per_cpu := (per_cpu k)(cpu := (per_cpu k cpu)\<lparr>nohz_task_ext_qs := v\<rparr>)\<rparr>"

definition tick_nohz_cpuset_stop_tick :: "c_int \<Rightarrow> ktime_t \<Rightarrow> env \<Rightarrow> kernel \<Rightarrow> kernel option" where
  \<comment> \<open>\<open>now\<close> is the \<^verbatim>\<open>ktime_get()\<close> passed to \<^verbatim>\<open>tick_nohz_stop_sched_tick\<close>.\<close>
  "tick_nohz_cpuset_stop_tick cpu now e k =
     (let user = (case irq_regs e of None \<Rightarrow> False | Some u \<Rightarrow> u) in
      if \<not> cpuset_adaptive_nohz e \<or> is_idle_task e then Some k
      else if \<not> tick_stopped (ts_of k cpu) \<and> nohz_mode (ts_of k cpu) = NOHZ_MODE_INACTIVE
        then Some k
      else
        let (can, k) = can_stop_adaptive_tick cpu e k in
        if \<not> can then Some k
        else if \<not> user \<and> current_mm e then Some k
        else
          let was_stopped = tick_stopped (ts_of k cpu) in
          (case tick_nohz_stop_sched_tick now cpu e k of
             None \<Rightarrow> None
           | Some (_, k) \<Rightarrow>
               Some (if \<not> was_stopped \<and> tick_stopped (ts_of k cpu) then
                       let k = WARN_ON_ONCE
                                 (saved_jiffies_whence (ts_of k cpu) \<noteq> JIFFIES_SAVED_NONE) k;
                           k = (if user then
                                  trace Rcu_user_enter_irq
                                    (set_nohz_task_ext_qs cpu 1
                                       (set_ts cpu ((ts_of k cpu)
                                          \<lparr>saved_jiffies_whence := JIFFIES_SAVED_USER\<rparr>) k))
                                else if \<not> current_mm e then
                                  set_ts cpu ((ts_of k cpu)
                                    \<lparr>saved_jiffies_whence := JIFFIES_SAVED_SYS\<rparr>) k
                                else k);
                           k = set_ts cpu ((ts_of k cpu)\<lparr>saved_jiffies := jiffies k\<rparr>) k
                       in set_thread_flag_TIF_NOHZ cpu True k
                     else k)))"

section \<open>tick-sched.c: restarting the tick and flushing the accounting\<close>

fun tick_nohz_restart_loop ::
  "(bool \<times> ktime_t) list \<Rightarrow> c_int \<Rightarrow> ktime_t \<Rightarrow> kernel \<Rightarrow> kernel option" where
  \<comment> \<open>The \<^verbatim>\<open>while (1)\<close> of \<^verbatim>\<open>tick_nohz_restart\<close>. Each element of the list is what the
      hardware answers to one arm and the \<^verbatim>\<open>ktime_get()\<close> read after a late one; with the
      list used up and no arm in time the loop has not ended: \<open>None\<close>, as the divide traps.\<close>
  "tick_nohz_restart_loop [] cpu now k = None"
| "tick_nohz_restart_loop ((armed, now') # answers) cpu now k =
     (case hrtimer_forward (sched_timer (ts_of k cpu)) now (tick_period (xtime k)) of
        None \<Rightarrow> None
      | Some timer \<Rightarrow>
          let k = set_ts cpu ((ts_of k cpu)\<lparr>sched_timer := timer\<rparr>) k;
              k = (if nohz_mode (ts_of k cpu) = NOHZ_MODE_HIGHRES
                   then hrtimer_start cpu (hrtimer_get_expires timer) armed k
                   else tick_program_event cpu (hrtimer_get_expires timer) k)
          in
            if armed then Some k
            else
              (case tick_do_update_jiffies64 now (xtime k) of
                 None \<Rightarrow> None
               | Some tb \<Rightarrow> tick_nohz_restart_loop answers cpu now' (k\<lparr>xtime := tb\<rparr>)))"

definition tick_nohz_restart :: "c_int \<Rightarrow> ktime_t \<Rightarrow> env \<Rightarrow> kernel \<Rightarrow> kernel option" where
  "tick_nohz_restart cpu now e k =
     (let k = hrtimer_cancel cpu k;
          ts = ts_of k cpu;
          k = set_ts cpu (ts\<lparr>sched_timer := (sched_timer ts)\<lparr>hrtimer_get_expires := last_tick ts\<rparr>\<rparr>) k
      in tick_nohz_restart_loop (rearm e) cpu now k)"

definition tick_nohz_restart_sched_tick_inner ::
  "c_int \<Rightarrow> ktime_t \<Rightarrow> env \<Rightarrow> kernel \<Rightarrow> kernel option" where
  \<comment> \<open>\<^verbatim>\<open>__tick_nohz_restart_sched_tick\<close>\<close>
  "tick_nohz_restart_sched_tick_inner cpu now e k =
     (case tick_do_update_jiffies64 now (xtime k) of
        None \<Rightarrow> None
      | Some tb \<Rightarrow>
          let k = trace Touch_softlockup_watchdog (k\<lparr>xtime := tb\<rparr>);
              k = set_ts cpu ((ts_of k cpu)\<lparr>tick_stopped := False, idle_exittime := now\<rparr>) k
          in tick_nohz_restart cpu now e k)"

definition tick_nohz_restart_sched_tick :: "c_int \<Rightarrow> ktime_t \<Rightarrow> env \<Rightarrow> kernel \<Rightarrow> kernel option" where
  "tick_nohz_restart_sched_tick cpu now e k =
     (if \<not> tick_stopped (ts_of k cpu) then Some k
      else tick_nohz_restart_sched_tick_inner cpu now e k)"

definition tick_nohz_account_ticks :: "c_int \<Rightarrow> kernel \<Rightarrow> kernel" where
  "tick_nohz_account_ticks cpu k =
     (let ts = ts_of k cpu;
          ticks = jiffies k - saved_jiffies ts
      in
        if ticks \<noteq> 0 \<and> ticks < LONG_MAX then
          (case saved_jiffies_whence ts of
             JIFFIES_SAVED_IDLE \<Rightarrow> trace (Account_idle_ticks ticks) k
           | JIFFIES_SAVED_USER \<Rightarrow> trace (Account_user_ticks ticks) k
           | JIFFIES_SAVED_SYS \<Rightarrow> trace (Account_system_ticks ticks) k
           | JIFFIES_SAVED_NONE \<Rightarrow> k
           | JIFFIES_SAVED_invalid _ \<Rightarrow> WARN_ON_ONCE True k)
        else k)"

definition tick_nohz_flush_current_times :: "c_int \<Rightarrow> bool \<Rightarrow> kernel \<Rightarrow> kernel" where
  "tick_nohz_flush_current_times cpu restart_tick k =
     (if tick_stopped (ts_of k cpu) then
        let k = tick_nohz_account_ticks cpu k in
        if restart_tick
        then set_ts cpu ((ts_of k cpu)\<lparr>saved_jiffies_whence := JIFFIES_SAVED_NONE\<rparr>) k
        else set_ts cpu ((ts_of k cpu)\<lparr>saved_jiffies := jiffies k\<rparr>) k
      else k)"

definition tick_nohz_cpu_exit_qs :: "c_int \<Rightarrow> bool \<Rightarrow> kernel \<Rightarrow> kernel" where
  "tick_nohz_cpu_exit_qs cpu irq k =
     (if nohz_task_ext_qs (per_cpu k cpu) \<noteq> 0
      then set_nohz_task_ext_qs cpu 0
             (trace (if irq then Rcu_user_exit_irq else Rcu_user_exit) k)
      else k)"

definition tick_nohz_restart_adaptive :: "c_int \<Rightarrow> ktime_t \<Rightarrow> env \<Rightarrow> kernel \<Rightarrow> kernel option" where
  \<comment> \<open>\<open>now\<close> is the \<^verbatim>\<open>ktime_get()\<close> of \<^verbatim>\<open>tick_nohz_restart_sched_tick\<close>.\<close>
  "tick_nohz_restart_adaptive cpu now e k =
     (let k = tick_nohz_flush_current_times cpu True k;
          k = (if user_nohz (ts_of k cpu) then clear_user_nohz cpu k else k)
      in
        (case tick_nohz_restart_sched_tick cpu now e k of
           None \<Rightarrow> None
         | Some k \<Rightarrow>
             Some (tick_nohz_cpu_exit_qs cpu True (set_thread_flag_TIF_NOHZ cpu False k))))"

definition tick_nohz_check_adaptive :: "c_int \<Rightarrow> ktime_t \<Rightarrow> env \<Rightarrow> kernel \<Rightarrow> kernel option" where
  "tick_nohz_check_adaptive cpu now e k =
     (if tick_stopped (ts_of k cpu) \<and> \<not> is_idle_task e then
        let (can, k) = can_stop_adaptive_tick cpu e k in
        if \<not> can then tick_nohz_restart_adaptive cpu now e k else Some k
      else Some k)"


section \<open>The states the subsystem can reach\<close>

definition valid_cpu :: "c_int \<Rightarrow> c_int \<Rightarrow> bool" where
  \<comment> \<open>a CPU number below \<^verbatim>\<open>NR_CPUS\<close>, here \<open>n\<close>\<close>
  "valid_cpu n cpu = (0 <=s cpu \<and> cpu <s n)"

definition marked_cpus :: "kernel \<Rightarrow> c_int set" where
  \<comment> \<open>the CPUs whose \<^verbatim>\<open>tick_sched\<close> has \<^verbatim>\<open>user_nohz\<close> set\<close>
  "marked_cpus k = {c. user_nohz (ts_of k c)}"

definition counter_inv :: "c_int \<Rightarrow> kernel \<Rightarrow> bool" where
  \<comment> \<open>only CPUs of the machine are marked, and the counter is their number\<close>
  "counter_inv n k =
     (marked_cpus k \<subseteq> {c. valid_cpu n c}
      \<and> sint (nr_cpus_user_nohz k) = int (card (marked_cpus k)))"

definition same_marks :: "kernel \<Rightarrow> kernel \<Rightarrow> bool" where
  \<comment> \<open>no marker and not the counter differ between the two states\<close>
  "same_marks k k' =
     ((\<forall>c. user_nohz (ts_of k' c) = user_nohz (ts_of k c))
      \<and> nr_cpus_user_nohz k' = nr_cpus_user_nohz k)"

definition counter_follows :: "c_int \<Rightarrow> kernel \<Rightarrow> kernel \<Rightarrow> bool" where
  \<comment> \<open>from \<open>k\<close> to \<open>k'\<close> only the marker of \<open>cpu\<close> may differ, and the counter went up by
      one if it was set, down by one if it was cleared\<close>
  "counter_follows cpu k k' =
     ((\<forall>c. c \<noteq> cpu \<longrightarrow> user_nohz (ts_of k' c) = user_nohz (ts_of k c))
      \<and> sint (nr_cpus_user_nohz k') =
          sint (nr_cpus_user_nohz k)
          + (if user_nohz (ts_of k' cpu) \<and> \<not> user_nohz (ts_of k cpu) then 1 else 0)
          - (if \<not> user_nohz (ts_of k' cpu) \<and> user_nohz (ts_of k cpu) then 1 else 0))"

definition env_valid :: "c_int \<Rightarrow> env \<Rightarrow> bool" where
  \<comment> \<open>the other CPUs that set or clear their marker during a call are CPUs of the machine\<close>
  "env_valid n e = (\<forall>s \<in> set (interference e). case s of
       Env_user_nohz c _ \<Rightarrow> valid_cpu n c | _ \<Rightarrow> True)"

text \<open>
  The per-CPU structures start zeroed and the counter at \<^verbatim>\<open>ATOMIC_INIT(0)\<close>. From there a
  state is reached by the functions of the file that write the marker or the counter,
  called on any CPU of the machine with any answers of the environment: the three that
  do it themselves and the entry points that call them. Everything else in the file
  leaves both alone (rule \<open>other\<close>).
\<close>

inductive reachable :: "c_int \<Rightarrow> kernel \<Rightarrow> bool" for n :: c_int where
  boot: "\<forall>c. \<not> user_nohz (ts_of k c) \<Longrightarrow> nr_cpus_user_nohz k = 0 \<Longrightarrow> reachable n k"
| adaptive: "reachable n k \<Longrightarrow> valid_cpu n cpu \<Longrightarrow>
     reachable n (snd (can_stop_adaptive_tick cpu e k))"
| start_idle: "reachable n k \<Longrightarrow> valid_cpu n cpu \<Longrightarrow>
     reachable n (tick_nohz_start_idle cpu now k)"
| restart_adaptive: "reachable n k \<Longrightarrow> valid_cpu n cpu \<Longrightarrow>
     tick_nohz_restart_adaptive cpu now e k = Some k' \<Longrightarrow> reachable n k'"
| cpuset_stop: "reachable n k \<Longrightarrow> valid_cpu n cpu \<Longrightarrow> env_valid n e \<Longrightarrow>
     tick_nohz_cpuset_stop_tick cpu now e k = Some k' \<Longrightarrow> reachable n k'"
| idle_enter: "reachable n k \<Longrightarrow> valid_cpu n cpu \<Longrightarrow> env_valid n e \<Longrightarrow>
     tick_nohz_idle_enter_inner cpu now e k = Some k' \<Longrightarrow> reachable n k'"
| check_adaptive: "reachable n k \<Longrightarrow> valid_cpu n cpu \<Longrightarrow>
     tick_nohz_check_adaptive cpu now e k = Some k' \<Longrightarrow> reachable n k'"
| other: "reachable n k \<Longrightarrow> same_marks k k' \<Longrightarrow> reachable n k'"

section \<open>A boot state and a quiet environment\<close>

text \<open>
  The per-CPU structures are zero-initialised static data, \<^verbatim>\<open>nr_cpus_user_nohz\<close> starts at
  \<^verbatim>\<open>ATOMIC_INIT(0)\<close> and \<^verbatim>\<open>tick_nohz_enabled\<close> at 1. The examples below start from this state,
  with a tick period of 1000000 ns and nobody holding the timekeeping duty, and from an
  environment in which nothing is pending and no other CPU interferes.
\<close>

definition boot_tick_sched :: tick_sched where
  "boot_tick_sched =
     \<lparr>sched_timer = \<lparr>hrtimer_get_expires = 0, hrtimer_active = False\<rparr>, check_clocks = 0,
      nohz_mode = NOHZ_MODE_INACTIVE, last_tick = 0, inidle = False, tick_stopped = False,
      idle_calls = 0, idle_sleeps = 0, idle_active = False, idle_entrytime = 0,
      idle_waketime = 0, idle_exittime = 0, idle_sleeptime = 0, iowait_sleeptime = 0,
      sleep_length = 0, ts_last_jiffies = 0, ts_next_jiffies = 0, idle_expires = 0,
      do_timer_last = False, user_nohz = False, saved_jiffies = 0,
      saved_jiffies_whence = JIFFIES_SAVED_NONE\<rparr>"

definition boot_cpu_local :: cpu_local where
  "boot_cpu_local =
     \<lparr>tick_cpu_sched = boot_tick_sched, next_event = 0, nohz_task_ext_qs = 0, TIF_NOHZ = False\<rparr>"

definition boot_kernel :: kernel where
  "boot_kernel =
     \<lparr>xtime = \<lparr>last_jiffies_update = 0, tick_period = 1000000, tick_next_period = 1000000,
               jiffies_64 = 0, do_timer_calls = []\<rparr>,
      tick_do_timer_cpu = TICK_DO_TIMER_NONE, nr_cpus_user_nohz = 0, tick_nohz_enabled = True,
      ratelimit = 0, per_cpu = (\<lambda>_. boot_cpu_local), calls = []\<rparr>"

definition quiet_env :: env where
  "quiet_env =
     \<lparr>max_deferment = 4000000000, rcu_needs_cpu = False, printk_needs_cpu = False,
      arch_needs_cpu = False, get_next_timer_interrupt = (\<lambda>j. j + 50), is_idle_task = False,
      cpuset_cpu_adaptive_nohz = False, cpuset_adaptive_nohz = False, interference = [],
      hrtimer_armed = True, program_event_ret = 0, ktime_get_retry = 0, cpu_online = True,
      need_resched = False, local_softirq_pending = 0, sched_can_stop_tick = True,
      posix_cpu_timers_running = False, rcu_pending = False, irq_regs = None,
      current_mm = False, nr_iowait_cpu = 0, rearm = []\<rparr>"

definition at_jiffies :: "ulong \<Rightarrow> kernel \<Rightarrow> kernel" where
  \<comment> \<open>the state in which \<open>j\<close> ticks have been counted\<close>
  "at_jiffies j k =
     k\<lparr>xtime := (xtime k)\<lparr>jiffies_64 := j,
            last_jiffies_update := tick_period (xtime k) * j,
            tick_next_period := tick_period (xtime k) * (j + 1)\<rparr>\<rparr>"

definition with_mode :: "c_int \<Rightarrow> nohz_mode \<Rightarrow> kernel \<Rightarrow> kernel" where
  "with_mode cpu m k = set_ts cpu ((ts_of k cpu)\<lparr>nohz_mode := m\<rparr>) k"

definition with_user_nohz :: "c_int \<Rightarrow> kernel \<Rightarrow> kernel" where
  \<comment> \<open>CPU \<open>cpu\<close> has marked itself, as its \<^verbatim>\<open>can_stop_adaptive_tick\<close> does\<close>
  "with_user_nohz cpu k = env_apply (Env_user_nohz cpu True) k"

definition duty_race_kernel :: kernel where
  \<comment> \<open>CPU 3 is busy-adaptive and CPU 1, a regular CPU, holds the duty.\<close>
  "duty_race_kernel = (with_user_nohz 3 boot_kernel)\<lparr>tick_do_timer_cpu := 1\<rparr>"

definition duty_race_env :: env where
  \<comment> \<open>While CPU 0 runs \<^verbatim>\<open>check_drop_timer_duty\<close>: CPU 1 drops the duty between CPU 0's read
      of \<^verbatim>\<open>tick_do_timer_cpu\<close> and its \<^verbatim>\<open>cmpxchg\<close>, and in the next pass CPU 2 takes the
      duty between the same two accesses.\<close>
  "duty_race_env =
     quiet_env\<lparr>interference :=
       [Env_quiet, Env_quiet, Env_store_do_timer_cpu TICK_DO_TIMER_NONE, Env_quiet,
        Env_quiet, Env_quiet, Env_store_do_timer_cpu 2]\<rparr>"

definition claim_duty_kernel :: kernel where
  \<comment> \<open>100 ticks counted, CPU 0 in high-resolution mode with its tick running, CPUs 1 and 2
      busy-adaptive, nobody holding the duty\<close>
  "claim_duty_kernel =
     with_user_nohz 2 (with_user_nohz 1
       (with_mode 0 NOHZ_MODE_HIGHRES (at_jiffies 100 boot_kernel)))"

definition idle_env :: env where
  \<comment> \<open>the idle task runs; the next timer is due 50 ticks ahead\<close>
  "idle_env = quiet_env\<lparr>is_idle_task := True\<rparr>"

definition drop_duty_kernel :: kernel where
  \<comment> \<open>100 ticks counted, CPU 0 in high-resolution mode, holding the duty; no CPU is
      busy-adaptive\<close>
  "drop_duty_kernel =
     (with_mode 0 NOHZ_MODE_HIGHRES (at_jiffies 100 boot_kernel))\<lparr>tick_do_timer_cpu := 0\<rparr>"

definition one_off_kernel :: kernel where
  \<comment> \<open>CPU 0 stopped its tick in user mode and its tick handler has since incremented
      \<open>saved_jiffies\<close> to one more than the tick counter\<close>
  "one_off_kernel =
     set_ts 0 (boot_tick_sched\<lparr>nohz_mode := NOHZ_MODE_HIGHRES, tick_stopped := True,
                 saved_jiffies := 1, saved_jiffies_whence := JIFFIES_SAVED_USER\<rparr>) boot_kernel"

definition idling_kernel :: kernel where
  \<comment> \<open>CPU 0 has been idle since 1000000 ns, with 5000000 ns of idle time and 4000000 ns
      of I/O wait accumulated before\<close>
  "idling_kernel =
     set_ts 0 (boot_tick_sched\<lparr>idle_active := True, idle_entrytime := 1000000,
                 idle_sleeptime := 5000000, iowait_sleeptime := 4000000\<rparr>) boot_kernel"

definition lowres_kernel :: kernel where
  \<comment> \<open>CPU 0 has switched to low-resolution tickless mode\<close>
  "lowres_kernel = with_mode 0 NOHZ_MODE_LOWRES boot_kernel"

definition offline_softirq_env :: env where
  \<comment> \<open>the CPU is offline, nothing wants the scheduler, and a soft interrupt is pending\<close>
  "offline_softirq_env = quiet_env\<lparr>cpu_online := False, local_softirq_pending := 2\<rparr>"

definition busy_kernel :: kernel where
  \<comment> \<open>100 ticks counted, CPU 0 in high-resolution mode with its tick running, and CPU 1,
      a regular CPU, holding the duty\<close>
  "busy_kernel =
     (with_mode 0 NOHZ_MODE_HIGHRES (at_jiffies 100 boot_kernel))\<lparr>tick_do_timer_cpu := 1\<rparr>"

definition user_env :: env where
  \<comment> \<open>a task of an adaptive cpuset, alone on its CPU, interrupted in user mode\<close>
  "user_env =
     quiet_env\<lparr>cpuset_adaptive_nohz := True, cpuset_cpu_adaptive_nohz := True,
                irq_regs := Some True, current_mm := True\<rparr>"

definition syscall_env :: env where
  \<comment> \<open>the same task interrupted in kernel mode\<close>
  "syscall_env = user_env\<lparr>irq_regs := Some False\<rparr>"

definition kthread_env :: env where
  \<comment> \<open>a kernel thread, which has no address space\<close>
  "kthread_env = user_env\<lparr>irq_regs := Some False, current_mm := False\<rparr>"



definition two_marked_kernel :: kernel where
  \<comment> \<open>after boot, CPU 0 and then CPU 2 found that they can stop their tick\<close>
  "two_marked_kernel =
     snd (can_stop_adaptive_tick 2 user_env (snd (can_stop_adaptive_tick 0 user_env boot_kernel)))"
section \<open>The jiffies update (C1)\<close>

subsection \<open>Word arithmetic without overflow\<close>

lemma sint_sub_no_ovf:
  fixes a b :: "'a::len word"
  assumes "- (2 ^ (LENGTH('a) - 1)) \<le> sint a - sint b"
    and "sint a - sint b < 2 ^ (LENGTH('a) - 1)"
  shows "sint (a - b) = sint a - sint b"
  using assms by (simp add: signed_take_bit_int_eq_self sint_word_diff)

lemma update_step:
  fixes now :: ktime_t
  assumes P: "0 < sint (tick_period tb)"
    and lo: "sint (tick_period tb) \<le> sint now - sint (last_jiffies_update tb)"
    and hi: "sint now - sint (last_jiffies_update tb) < 2 ^ 63"
  shows "tick_do_update_jiffies64 now tb =
     Some (tb\<lparr>last_jiffies_update := last_jiffies_update tb +
                 word_of_int ((sint now - sint (last_jiffies_update tb)) div sint (tick_period tb)
                    * sint (tick_period tb)),
               tick_next_period := last_jiffies_update tb +
                 word_of_int ((sint now - sint (last_jiffies_update tb)) div sint (tick_period tb)
                    * sint (tick_period tb)) + tick_period tb,
               jiffies_64 := jiffies_64 tb +
                 word_of_int ((sint now - sint (last_jiffies_update tb)) div sint (tick_period tb)),
               do_timer_calls := do_timer_calls tb @
                 [word_of_int ((sint now - sint (last_jiffies_update tb)) div sint (tick_period tb))]\<rparr>)"
proof -
  define D where "D = sint now - sint (last_jiffies_update tb)"
  define T where "T = sint (tick_period tb)"
  have tp: "tick_period tb = word_of_int T" by (simp add: T_def)
  have d1: "sint (now - last_jiffies_update tb) = D"
    unfolding D_def using lo hi P by (intro sint_sub_no_ovf) auto
  have d2: "sint (now - last_jiffies_update tb - tick_period tb) = D - T"
    using d1 lo hi P unfolding D_def[symmetric] T_def[symmetric]
    by (subst sint_sub_no_ovf) (auto simp: T_def[symmetric])
  have Tne: "tick_period tb \<noteq> 0" using P by auto
  have q: "D div T = (D - T) div T + 1"
    using P div_add_self1 [of T "D - T"] by (simp add: T_def)
  show ?thesis
  proof (cases "T \<le> D - T")
    case True
    have sd: "(D - T) sdiv T = (D - T) div T"
      using True P unfolding T_def[symmetric]
      by (simp add: signed_divide_int_def sgn_if)
    show ?thesis using True lo P d1 d2 Tne sd
      unfolding D_def[symmetric] T_def[symmetric]
      apply (simp add: tick_do_update_jiffies64_def Let_def ktime_sub_def ktime_add_def
          ktime_add_ns_def ktime_to_ns_def ktime_divns_def c_sdiv_def do_timer_def
          word_sle_eq word_sless_alt T_def[symmetric] q)
      apply (simp add: tp ring_distribs)
      done
  next
    case False
    have "(D - T) div T = 0" using False lo P unfolding D_def[symmetric] T_def[symmetric]
      by (intro div_pos_pos_trivial) auto
    then have "D div T = 1" using q by simp
    then show ?thesis using False lo P d1 d2 Tne
      unfolding D_def[symmetric] T_def[symmetric]
      by (simp add: tick_do_update_jiffies64_def Let_def ktime_sub_def ktime_add_def
          ktime_add_ns_def ktime_to_ns_def ktime_divns_def c_sdiv_def do_timer_def
          word_sle_eq word_sless_alt T_def[symmetric] tp[symmetric])
  qed
qed

lemma update_noop:
  fixes now :: ktime_t
  assumes lo: "- (2 ^ 63) \<le> sint now - sint (last_jiffies_update tb)"
    and hi: "sint now - sint (last_jiffies_update tb) < sint (tick_period tb)"
  shows "tick_do_update_jiffies64 now tb = Some tb"
proof -
  have "sint (tick_period tb) < 2 ^ 63" using sint_lt [of "tick_period tb"] by simp
  then have "sint (now - last_jiffies_update tb) = sint now - sint (last_jiffies_update tb)"
    using lo hi by (intro sint_sub_no_ovf) auto
  then show ?thesis using hi
    by (simp add: tick_do_update_jiffies64_def Let_def ktime_sub_def word_sless_alt)
qed

lemma sint_add_of_int_no_ovf:
  fixes a :: "'a::len word"
  assumes "- (2 ^ (LENGTH('a) - 1)) \<le> sint a + x" and "sint a + x < 2 ^ (LENGTH('a) - 1)"
  shows "sint (a + word_of_int x) = sint a + x"
proof -
  have "a + word_of_int x = word_of_int (sint a + x)" by simp
  then have "sint (a + word_of_int x) = signed_take_bit (LENGTH('a) - 1) (sint a + x)"
    by (simp only: sint_sbintrunc')
  then show ?thesis using assms by (simp add: signed_take_bit_int_eq_self)
qed

lemma uint_of_int_small:
  assumes "0 \<le> x" "x < 2 ^ 64"
  shows "uint (word_of_int x :: 64 word) = x"
  using assms by (simp add: uint_word_of_int take_bit_int_eq_self)

lemma int_div_mult_le: "0 < (P::int) \<Longrightarrow> D div P * P \<le> D"
  using div_mult_mod_eq [of D P] pos_mod_sign [of P D] by linarith

lemma int_div_small_nonpos: "0 < (P::int) \<Longrightarrow> D < P \<Longrightarrow> D div P \<le> 0"
proof (cases "0 \<le> D")
  case True
  assume "0 < P" "D < P"
  then show ?thesis using True by (simp add: div_pos_pos_trivial)
next
  case False
  assume "0 < P" "D < P"
  then show ?thesis using False by (simp add: div_nonpos_pos_le0)
qed

lemma int_div_shift: "0 < (P::int) \<Longrightarrow> (x - (L + k * P)) div P = (x - L) div P - k"
  using div_mult_self1 [of P "x - L" "- k"] by (simp add: algebra_simps)

lemma int_le_mult_pos: "0 < (P::int) \<Longrightarrow> 0 \<le> k \<Longrightarrow> k \<le> k * P"
  using mult_left_mono [of 1 P k] by simp

lemma advance_all_sorted:
  fixes nows :: "ktime_t list"
  assumes T: "0 < sint (tick_period tb)"
    and srt: "sorted (map sint nows)"
    and rng: "\<forall>n\<in>set nows. - (2 ^ 63) \<le> sint n - sint (last_jiffies_update tb)
                 \<and> sint n - sint (last_jiffies_update tb) < 2 ^ 63"
  shows "\<exists>tb' new. advance_all nows tb = Some tb'
           \<and> tick_period tb' = tick_period tb
           \<and> sint (last_jiffies_update tb') = sint (last_jiffies_update tb) +
                 (if nows = [] then 0 else
                   max 0 ((sint (last nows) - sint (last_jiffies_update tb)) div sint (tick_period tb)))
                 * sint (tick_period tb)
           \<and> jiffies_64 tb' = jiffies_64 tb + word_of_int
                 (if nows = [] then 0 else
                   max 0 ((sint (last nows) - sint (last_jiffies_update tb)) div sint (tick_period tb)))
           \<and> do_timer_calls tb' = do_timer_calls tb @ new
           \<and> (\<Sum>t\<leftarrow>new. uint t) =
                 (if nows = [] then 0 else
                   max 0 ((sint (last nows) - sint (last_jiffies_update tb)) div sint (tick_period tb)))"
  using assms
proof (induction nows arbitrary: tb)
  case Nil
  then show ?case by simp
next
  case (Cons n ns)
  define L where "L = sint (last_jiffies_update tb)"
  define P where "P = sint (tick_period tb)"
  define D where "D = sint n - L"
  have P: "0 < P" using Cons.prems(1) by (simp add: P_def)
  have Dlo: "- (2 ^ 63) \<le> D" and Dhi: "D < 2 ^ 63"
    using Cons.prems(3) by (simp_all add: D_def L_def)
  define k where "k = max 0 (D div P)"
  have k0: "0 \<le> k" by (simp add: k_def)
  obtain tb1 where step: "tick_do_update_jiffies64 n tb = Some tb1"
    and tp1: "tick_period tb1 = tick_period tb"
    and l1w: "last_jiffies_update tb1 = last_jiffies_update tb + word_of_int (k * P)"
    and j1: "jiffies_64 tb1 = jiffies_64 tb + word_of_int k"
    and c1: "do_timer_calls tb1 = do_timer_calls tb @ (if P \<le> D then [word_of_int k] else [])"
    and kD: "k * P \<le> max 0 D" and kle: "P \<le> D \<Longrightarrow> 1 \<le> k"
  proof (cases "P \<le> D")
    case True
    have "0 < D div P" using True P
      by (simp add: pos_imp_zdiv_pos_iff)
    then have "1 \<le> D div P" by simp
    then have kk: "k = D div P" by (simp add: k_def)
    have "D div P * P \<le> D" using P by (rule int_div_mult_le)
    then show ?thesis using that[of "tb\<lparr>last_jiffies_update := last_jiffies_update tb + word_of_int (k * P),
               tick_next_period := last_jiffies_update tb + word_of_int (k * P) + tick_period tb,
               jiffies_64 := jiffies_64 tb + word_of_int k,
               do_timer_calls := do_timer_calls tb @ [word_of_int k]\<rparr>"]
        update_step[where tb=tb and now=n] True P Dhi \<open>1 \<le> D div P\<close>
      unfolding kk D_def L_def P_def by simp
  next
    case False
    then have "D div P \<le> 0" using P by (simp add: int_div_small_nonpos)
    then have "k = 0" by (simp add: k_def)
    then show ?thesis using that[of tb] update_noop[where tb=tb and now=n] False Dlo
      unfolding D_def L_def P_def by simp
  qed
  have l1: "sint (last_jiffies_update tb1) = L + k * P"
    unfolding l1w L_def
  proof (rule sint_add_of_int_no_ovf)
    have "- (2 ^ 63) \<le> L" using sint_ge [of "last_jiffies_update tb"] by (simp add: L_def)
    moreover have "0 \<le> k * P" using k0 P by simp
    ultimately show "- (2 ^ (LENGTH(64) - 1)) \<le> sint (last_jiffies_update tb) + k * P"
      by (simp add: L_def)
    have "sint n < 2 ^ 63" using sint_lt [of n] by simp
    moreover have "L < 2 ^ 63" using sint_lt [of "last_jiffies_update tb"] by (simp add: L_def)
    ultimately show "sint (last_jiffies_update tb) + k * P < 2 ^ (LENGTH(64) - 1)"
      using kD by (simp add: L_def D_def max_def split: if_splits)
  qed
  have srt': "sorted (map sint ns)" and nle: "\<forall>m\<in>set ns. sint n \<le> sint m"
    using Cons.prems(2) by simp_all
  have rng': "\<forall>m\<in>set ns. - (2 ^ 63) \<le> sint m - sint (last_jiffies_update tb1)
                 \<and> sint m - sint (last_jiffies_update tb1) < 2 ^ 63"
  proof
    fix m assume m: "m \<in> set ns"
    have a: "- (2 ^ 63) \<le> sint m - L" "sint m - L < 2 ^ 63"
      using Cons.prems(3) m by (simp_all add: L_def)
    have b: "sint n \<le> sint m" using nle m by simp
    have "0 \<le> k * P" using k0 P by simp
    then show "- (2 ^ 63) \<le> sint m - sint (last_jiffies_update tb1)
                 \<and> sint m - sint (last_jiffies_update tb1) < 2 ^ 63"
      using a b kD unfolding l1 D_def by (auto simp: max_def split: if_splits)
  qed
  from Cons.IH[of tb1] tp1 Cons.prems(1) srt' rng'
  obtain tb' new where rest: "advance_all ns tb1 = Some tb'"
    "tick_period tb' = tick_period tb1"
    "sint (last_jiffies_update tb') = sint (last_jiffies_update tb1) +
        (if ns = [] then 0 else max 0 ((sint (last ns) - sint (last_jiffies_update tb1)) div P)) * P"
    "jiffies_64 tb' = jiffies_64 tb1 + word_of_int
        (if ns = [] then 0 else max 0 ((sint (last ns) - sint (last_jiffies_update tb1)) div P))"
    "do_timer_calls tb' = do_timer_calls tb1 @ new"
    "(\<Sum>t\<leftarrow>new. uint t) =
        (if ns = [] then 0 else max 0 ((sint (last ns) - sint (last_jiffies_update tb1)) div P))"
    unfolding P_def by auto
  define r where "r = (if ns = [] then 0 else max 0 ((sint (last ns) - sint (last_jiffies_update tb1)) div P))"
  have tot: "k + r = max 0 ((sint (last (n # ns)) - L) div P)"
  proof (cases "ns = []")
    case True
    then show ?thesis by (simp add: r_def k_def D_def)
  next
    case False
    then have "last ns \<in> set ns" by simp
    then have ge: "sint n \<le> sint (last ns)" using nle by blast
    have "(sint (last ns) - (L + k * P)) div P = (sint (last ns) - L) div P - k"
      using P by (rule int_div_shift)
    moreover have "D div P \<le> (sint (last ns) - L) div P"
      using ge P unfolding D_def by (intro zdiv_mono1) auto
    ultimately show ?thesis using False unfolding r_def l1 k_def by (simp add: max_def)
  qed
  have uk: "(\<Sum>t\<leftarrow>(if P \<le> D then [word_of_int k :: 64 word] else []). uint t) = k"
  proof (cases "P \<le> D")
    case True
    have "k \<le> k * P" using k0 P by (simp add: int_le_mult_pos)
    then have "k < 2 ^ 64" using kD Dhi by (simp add: max_def split: if_splits)
    then show ?thesis using True k0 by (simp add: uint_of_int_small)
  next
    case False
    then have "D div P \<le> 0" using P by (simp add: int_div_small_nonpos)
    then show ?thesis using False by (simp add: k_def)
  qed
  define KK where "KK = max 0 ((sint (last (n # ns)) - L) div P)"
  have KK: "k + r = KK" using tot by (simp add: KK_def)
  have e0: "advance_all (n # ns) tb = Some tb'" using step rest(1) by simp
  have e1: "tick_period tb' = tick_period tb" using rest(2) tp1 by simp
  have e2: "sint (last_jiffies_update tb') = L + KK * P"
    using rest(3) l1 unfolding r_def[symmetric] KK[symmetric] by (simp add: algebra_simps)
  have e3: "jiffies_64 tb' = jiffies_64 tb + word_of_int KK"
    using rest(4) j1 unfolding r_def[symmetric] KK[symmetric] by simp
  have e4: "do_timer_calls tb' =
      do_timer_calls tb @ ((if P \<le> D then [word_of_int k] else []) @ new)"
    using rest(5) c1 by simp
  have e5: "(\<Sum>t\<leftarrow>(if P \<le> D then [word_of_int k] else []) @ new. uint t) = KK"
    using rest(6) uk unfolding r_def[symmetric] KK[symmetric] by simp
  have "\<exists>tb' new. advance_all (n # ns) tb = Some tb'
           \<and> tick_period tb' = tick_period tb
           \<and> sint (last_jiffies_update tb') = L + KK * P
           \<and> jiffies_64 tb' = jiffies_64 tb + word_of_int KK
           \<and> do_timer_calls tb' = do_timer_calls tb @ new
           \<and> (\<Sum>t\<leftarrow>new. uint t) = KK"
    using e0 e1 e2 e3 e4 e5 by blast
  then show ?case unfolding KK_def L_def P_def by simp
qed

lemma last_take_nth:
  assumes "0 < i" "i \<le> length xs"
  shows "last (take i xs) = xs ! (i - 1)"
proof -
  have ne: "take i xs \<noteq> []" using assms by auto
  have len: "length (take i xs) = i" using assms by simp
  have "last (take i xs) = take i xs ! (i - 1)"
    using last_conv_nth [OF ne] len by simp
  also have "\<dots> = xs ! (i - 1)" using assms by simp
  finally show ?thesis .
qed

lemma prefix_ticks_mono:
  fixes nows :: "ktime_t list"
  assumes P: "0 < (P::int)" and srt: "sorted (map sint nows)"
    and ij: "i \<le> j" "j \<le> length nows"
  shows "(if take i nows = [] then 0 else max 0 ((sint (last (take i nows)) - L) div P))
       \<le> (if take j nows = [] then 0 else max 0 ((sint (last (take j nows)) - L) div P))"
proof (cases "i = 0")
  case True
  then show ?thesis by simp
next
  case False
  then have i: "0 < i" "i \<le> length nows" "0 < j" using ij by simp_all
  have li: "last (take i nows) = nows ! (i - 1)" using i
    by (intro last_take_nth) auto
  have lj: "last (take j nows) = nows ! (j - 1)" using i ij
    by (intro last_take_nth) auto
  have "map sint nows ! (i - 1) \<le> map sint nows ! (j - 1)"
    using srt ij i by (intro sorted_nth_mono) auto
  then have "sint (nows ! (i - 1)) \<le> sint (nows ! (j - 1))" using i ij by simp
  then have "(sint (nows ! (i - 1)) - L) div P \<le> (sint (nows ! (j - 1)) - L) div P"
    using P by (intro zdiv_mono1) auto
  then show ?thesis using i ij li lj by (auto simp: max_def)
qed

lemma unat_add_of_int_no_wrap:
  fixes j :: u64
  assumes "0 \<le> k" "unat j + nat k < 2 ^ 64"
  shows "unat (j + word_of_int k) = unat j + nat k"
proof -
  have k: "(word_of_int k :: u64) = word_of_nat (nat k)" using assms(1) by simp
  show ?thesis unfolding k using assms(2)
    by (simp add: unat_word_ariths unat_of_nat)
qed

lemma advance_all_prefix_jiffies:
  fixes nows :: "ktime_t list"
  assumes T: "0 < sint (tick_period tb)"
    and srt: "sorted (map sint nows)"
    and rng: "\<forall>n\<in>set nows. - (2 ^ 63) \<le> sint n - sint (last_jiffies_update tb)
                 \<and> sint n - sint (last_jiffies_update tb) < 2 ^ 63"
    and nowrap: "unat (jiffies_64 tb) + nat (if nows = [] then 0 else
           max 0 ((sint (last nows) - sint (last_jiffies_update tb)) div sint (tick_period tb)))
           < 2 ^ 64"
    and i: "i \<le> length nows"
  shows "\<exists>tbi. advance_all (take i nows) tb = Some tbi
           \<and> unat (jiffies_64 tbi) = unat (jiffies_64 tb) + nat (if take i nows = [] then 0 else
               max 0 ((sint (last (take i nows)) - sint (last_jiffies_update tb))
                  div sint (tick_period tb)))"
proof -
  define K where "K xs = (if xs = [] then 0 else
      max 0 ((sint (last xs) - sint (last_jiffies_update tb)) div sint (tick_period tb)))"
    for xs :: "ktime_t list"
  have s: "sorted (map sint (take i nows))" using srt by (simp add: take_map [symmetric] sorted_wrt_take)
  have r: "\<forall>n\<in>set (take i nows). - (2 ^ 63) \<le> sint n - sint (last_jiffies_update tb)
                 \<and> sint n - sint (last_jiffies_update tb) < 2 ^ 63"
    using rng by (meson in_set_takeD)
  from advance_all_sorted [OF T s r]
  obtain tbi where a: "advance_all (take i nows) tb = Some tbi"
    and j: "jiffies_64 tbi = jiffies_64 tb + word_of_int (K (take i nows))"
    unfolding K_def by blast
  have "K (take i nows) \<le> K (take (length nows) nows)"
    unfolding K_def using prefix_ticks_mono [OF T srt i order_refl] .
  then have le: "K (take i nows) \<le> K nows" by simp
  have k0: "0 \<le> K (take i nows)" by (simp add: K_def)
  have "unat (jiffies_64 tb) + nat (K (take i nows)) < 2 ^ 64"
    using nowrap le unfolding K_def [symmetric] by linarith
  then have "unat (jiffies_64 tbi) = unat (jiffies_64 tb) + nat (K (take i nows))"
    unfolding j using k0 by (intro unat_add_of_int_no_wrap)
  then show ?thesis using a unfolding K_def by blast
qed

text \<open>
  Claim C1. With a positive \<open>tick_period\<close> and timestamps whose difference fits the
  64-bit signed range:
  \<^item> a call with \<open>now\<close> at least one period past \<open>last_jiffies_update\<close> passes
    \<open>floor ((now - last_jiffies_update) / tick_period)\<close> to \<^verbatim>\<open>do_timer\<close> in a single call,
    advances \<open>last_jiffies_update\<close> by that many whole periods and sets
    \<open>tick_next_period\<close> to the new \<open>last_jiffies_update\<close> plus one period;
  \<^item> a call with less than one period elapsed changes nothing;
  \<^item> over an increasing sequence of calls the counter has advanced by exactly the number
    of whole periods between the first \<open>last_jiffies_update\<close> and the last \<open>now\<close>
    (the arguments of all \<^verbatim>\<open>do_timer\<close> calls sum to that number, so no period is
    counted twice), and, as long as the 64-bit counter does not wrap, the counter after
    a shorter prefix of the calls is never above the counter after a longer one.
\<close>

theorem C1_tick_do_update_jiffies64:
  fixes tb :: timebase and now now0 :: ktime_t and nows :: "ktime_t list"
  assumes "0 < sint (tick_period tb)"
  shows
   "(sint (tick_period tb) \<le> sint now - sint (last_jiffies_update tb)
       \<and> sint now - sint (last_jiffies_update tb) < 2 ^ 63 \<longrightarrow>
     tick_do_update_jiffies64 now tb =
       Some (tb\<lparr>last_jiffies_update := last_jiffies_update tb +
                   word_of_int ((sint now - sint (last_jiffies_update tb)) div sint (tick_period tb)
                      * sint (tick_period tb)),
                 tick_next_period := last_jiffies_update tb +
                   word_of_int ((sint now - sint (last_jiffies_update tb)) div sint (tick_period tb)
                      * sint (tick_period tb)) + tick_period tb,
                 jiffies_64 := jiffies_64 tb +
                   word_of_int ((sint now - sint (last_jiffies_update tb)) div sint (tick_period tb)),
                 do_timer_calls := do_timer_calls tb @
                   [word_of_int ((sint now - sint (last_jiffies_update tb))
                      div sint (tick_period tb))]\<rparr>))
    \<and> (- (2 ^ 63) \<le> sint now0 - sint (last_jiffies_update tb)
       \<and> sint now0 - sint (last_jiffies_update tb) < sint (tick_period tb) \<longrightarrow>
     tick_do_update_jiffies64 now0 tb = Some tb)
    \<and> (sorted (map sint nows)
       \<and> (\<forall>n\<in>set nows. - (2 ^ 63) \<le> sint n - sint (last_jiffies_update tb)
                 \<and> sint n - sint (last_jiffies_update tb) < 2 ^ 63)
       \<and> unat (jiffies_64 tb) + nat (if nows = [] then 0 else
             max 0 ((sint (last nows) - sint (last_jiffies_update tb)) div sint (tick_period tb)))
           < 2 ^ 64 \<longrightarrow>
     (\<exists>tb' new. advance_all nows tb = Some tb'
         \<and> sint (last_jiffies_update tb') = sint (last_jiffies_update tb) +
               (if nows = [] then 0 else
                 max 0 ((sint (last nows) - sint (last_jiffies_update tb)) div sint (tick_period tb)))
               * sint (tick_period tb)
         \<and> jiffies_64 tb' = jiffies_64 tb + word_of_int
               (if nows = [] then 0 else
                 max 0 ((sint (last nows) - sint (last_jiffies_update tb)) div sint (tick_period tb)))
         \<and> do_timer_calls tb' = do_timer_calls tb @ new
         \<and> (\<Sum>t\<leftarrow>new. uint t) =
               (if nows = [] then 0 else
                 max 0 ((sint (last nows) - sint (last_jiffies_update tb)) div sint (tick_period tb))))
     \<and> (\<forall>i j. i \<le> j \<and> j \<le> length nows \<longrightarrow>
          (\<exists>tbi tbj. advance_all (take i nows) tb = Some tbi
              \<and> advance_all (take j nows) tb = Some tbj
              \<and> unat (jiffies_64 tbi) \<le> unat (jiffies_64 tbj))))"
proof (intro conjI impI)
  assume "sint (tick_period tb) \<le> sint now - sint (last_jiffies_update tb)
       \<and> sint now - sint (last_jiffies_update tb) < 2 ^ 63"
  then show "tick_do_update_jiffies64 now tb =
       Some (tb\<lparr>last_jiffies_update := last_jiffies_update tb +
                   word_of_int ((sint now - sint (last_jiffies_update tb)) div sint (tick_period tb)
                      * sint (tick_period tb)),
                 tick_next_period := last_jiffies_update tb +
                   word_of_int ((sint now - sint (last_jiffies_update tb)) div sint (tick_period tb)
                      * sint (tick_period tb)) + tick_period tb,
                 jiffies_64 := jiffies_64 tb +
                   word_of_int ((sint now - sint (last_jiffies_update tb)) div sint (tick_period tb)),
                 do_timer_calls := do_timer_calls tb @
                   [word_of_int ((sint now - sint (last_jiffies_update tb))
                      div sint (tick_period tb))]\<rparr>)"
    using assms by (intro update_step) auto
next
  assume "- (2 ^ 63) \<le> sint now0 - sint (last_jiffies_update tb)
       \<and> sint now0 - sint (last_jiffies_update tb) < sint (tick_period tb)"
  then show "tick_do_update_jiffies64 now0 tb = Some tb"
    by (intro update_noop) auto
next
  assume h: "sorted (map sint nows)
       \<and> (\<forall>n\<in>set nows. - (2 ^ 63) \<le> sint n - sint (last_jiffies_update tb)
                 \<and> sint n - sint (last_jiffies_update tb) < 2 ^ 63)
       \<and> unat (jiffies_64 tb) + nat (if nows = [] then 0 else
             max 0 ((sint (last nows) - sint (last_jiffies_update tb)) div sint (tick_period tb)))
           < 2 ^ 64"
  from advance_all_sorted [OF assms, of nows] h
  show "\<exists>tb' new. advance_all nows tb = Some tb'
         \<and> sint (last_jiffies_update tb') = sint (last_jiffies_update tb) +
               (if nows = [] then 0 else
                 max 0 ((sint (last nows) - sint (last_jiffies_update tb)) div sint (tick_period tb)))
               * sint (tick_period tb)
         \<and> jiffies_64 tb' = jiffies_64 tb + word_of_int
               (if nows = [] then 0 else
                 max 0 ((sint (last nows) - sint (last_jiffies_update tb)) div sint (tick_period tb)))
         \<and> do_timer_calls tb' = do_timer_calls tb @ new
         \<and> (\<Sum>t\<leftarrow>new. uint t) =
               (if nows = [] then 0 else
                 max 0 ((sint (last nows) - sint (last_jiffies_update tb)) div sint (tick_period tb)))"
    by blast
  show "\<forall>i j. i \<le> j \<and> j \<le> length nows \<longrightarrow>
          (\<exists>tbi tbj. advance_all (take i nows) tb = Some tbi
              \<and> advance_all (take j nows) tb = Some tbj
              \<and> unat (jiffies_64 tbi) \<le> unat (jiffies_64 tbj))"
  proof (intro allI impI)
    fix i j assume ij: "i \<le> j \<and> j \<le> length nows"
    then have i: "i \<le> length nows" and j: "j \<le> length nows" by simp_all
    from h have srt: "sorted (map sint nows)" by simp
    from advance_all_prefix_jiffies [OF assms _ _ _ i, of] h
    obtain tbi where a: "advance_all (take i nows) tb = Some tbi"
      "unat (jiffies_64 tbi) = unat (jiffies_64 tb) + nat (if take i nows = [] then 0 else
               max 0 ((sint (last (take i nows)) - sint (last_jiffies_update tb))
                  div sint (tick_period tb)))"
      by blast
    from advance_all_prefix_jiffies [OF assms _ _ _ j, of] h
    obtain tbj where b: "advance_all (take j nows) tb = Some tbj"
      "unat (jiffies_64 tbj) = unat (jiffies_64 tb) + nat (if take j nows = [] then 0 else
               max 0 ((sint (last (take j nows)) - sint (last_jiffies_update tb))
                  div sint (tick_period tb)))"
      by blast
    have "unat (jiffies_64 tbi) \<le> unat (jiffies_64 tbj)"
      unfolding a(2) b(2)
      using prefix_ticks_mono [OF assms srt, of i j "sint (last_jiffies_update tb)"] ij
      by (simp add: nat_mono)
    then show "\<exists>tbi tbj. advance_all (take i nows) tb = Some tbi
              \<and> advance_all (take j nows) tb = Some tbj
              \<and> unat (jiffies_64 tbi) \<le> unat (jiffies_64 tbj)"
      using a(1) b(1) by blast
  qed
qed

theorem C1_tick_do_update_jiffies64_witness:
  "0 < sint (10 :: ktime_t)
   \<and> tick_do_update_jiffies64 1035
        \<lparr>last_jiffies_update = 1000, tick_period = 10, tick_next_period = 1010,
         jiffies_64 = 5, do_timer_calls = []\<rparr>
      = Some \<lparr>last_jiffies_update = 1030, tick_period = 10, tick_next_period = 1040,
         jiffies_64 = 8, do_timer_calls = [3]\<rparr>
   \<and> tick_do_update_jiffies64 1005
        \<lparr>last_jiffies_update = 1000, tick_period = 10, tick_next_period = 1010,
         jiffies_64 = 5, do_timer_calls = []\<rparr>
      = Some \<lparr>last_jiffies_update = 1000, tick_period = 10, tick_next_period = 1010,
         jiffies_64 = 5, do_timer_calls = []\<rparr>
   \<and> (\<exists>tb' new. advance_all [1005, 1035, 1047]
        \<lparr>last_jiffies_update = 1000, tick_period = 10, tick_next_period = 1010,
         jiffies_64 = 5, do_timer_calls = []\<rparr> = Some tb'
      \<and> sint (last_jiffies_update tb') = 1040 \<and> jiffies_64 tb' = 9
      \<and> do_timer_calls tb' = new \<and> (\<Sum>t\<leftarrow>new. uint t) = 4)"
proof -
  let ?tb = "\<lparr>last_jiffies_update = 1000, tick_period = 10, tick_next_period = 1010,
         jiffies_64 = 5, do_timer_calls = []\<rparr> :: timebase"
  have T: "0 < sint (tick_period ?tb)" by simp
  note C = C1_tick_do_update_jiffies64 [OF T, of 1035 1005 "[1005, 1035, 1047]"]
  have 1: "tick_do_update_jiffies64 1035 ?tb
      = Some \<lparr>last_jiffies_update = 1030, tick_period = 10, tick_next_period = 1040,
         jiffies_64 = 8, do_timer_calls = [3]\<rparr>"
    using C [THEN conjunct1] by simp
  have 2: "tick_do_update_jiffies64 1005 ?tb = Some ?tb"
    using C [THEN conjunct2, THEN conjunct1] by simp
  have 3: "\<exists>tb' new. advance_all [1005, 1035, 1047] ?tb = Some tb'
      \<and> sint (last_jiffies_update tb') = 1040 \<and> jiffies_64 tb' = 9
      \<and> do_timer_calls tb' = new \<and> (\<Sum>t\<leftarrow>new. uint t) = 4"
    using C [THEN conjunct2, THEN conjunct2] by (simp del: advance_all.simps)
  show ?thesis using 1 2 3 by simp
qed

section \<open>Reading the state after an update\<close>

lemma ts_of_set_ts [simp]:
  "ts_of (set_ts cpu ts k) c = (if c = cpu then ts else ts_of k c)"
  by (simp add: ts_of_def set_ts_def)

lemma ts_of_trace [simp]: "ts_of (trace c k) cpu = ts_of k cpu"
  by (simp add: ts_of_def trace_def)

lemma calls_trace [simp]: "calls (trace c k) = calls k @ [c]"
  by (simp add: trace_def)

lemma calls_set_ts [simp]: "calls (set_ts cpu ts k) = calls k"
  by (simp add: set_ts_def)

lemma shared_set_ts [simp]:
  "tick_do_timer_cpu (set_ts cpu ts k) = tick_do_timer_cpu k"
  "nr_cpus_user_nohz (set_ts cpu ts k) = nr_cpus_user_nohz k"
  "xtime (set_ts cpu ts k) = xtime k"
  "ratelimit (set_ts cpu ts k) = ratelimit k"
  "tick_nohz_enabled (set_ts cpu ts k) = tick_nohz_enabled k"
  by (simp_all add: set_ts_def)

lemma shared_trace [simp]:
  "tick_do_timer_cpu (trace c k) = tick_do_timer_cpu k"
  "nr_cpus_user_nohz (trace c k) = nr_cpus_user_nohz k"
  "xtime (trace c k) = xtime k"
  "ratelimit (trace c k) = ratelimit k"
  "tick_nohz_enabled (trace c k) = tick_nohz_enabled k"
  "per_cpu (trace c k) = per_cpu k"
  by (simp_all add: trace_def)

lemma local_set_ts [simp]:
  "next_event (per_cpu (set_ts cpu ts k) c) = next_event (per_cpu k c)"
  "nohz_task_ext_qs (per_cpu (set_ts cpu ts k) c) = nohz_task_ext_qs (per_cpu k c)"
  "TIF_NOHZ (per_cpu (set_ts cpu ts k) c) = TIF_NOHZ (per_cpu k c)"
  by (simp_all add: set_ts_def)

lemma jiffies_simps [simp]:
  "jiffies (set_ts cpu ts k) = jiffies k"
  "jiffies (trace c k) = jiffies k"
  by (simp_all add: jiffies_def)

lemma ts_of_shared_update [simp]:
  "ts_of (k\<lparr>tick_do_timer_cpu := h\<rparr>) c = ts_of k c"
  "ts_of (k\<lparr>nr_cpus_user_nohz := n\<rparr>) c = ts_of k c"
  "ts_of (k\<lparr>xtime := tb\<rparr>) c = ts_of k c"
  "ts_of (k\<lparr>ratelimit := r\<rparr>) c = ts_of k c"
  "ts_of (k\<lparr>calls := cs\<rparr>) c = ts_of k c"
  by (simp_all add: ts_of_def)

lemma WARN_ON_ONCE_simps [simp]:
  "ts_of (WARN_ON_ONCE b k) c = ts_of k c"
  "tick_do_timer_cpu (WARN_ON_ONCE b k) = tick_do_timer_cpu k"
  "nr_cpus_user_nohz (WARN_ON_ONCE b k) = nr_cpus_user_nohz k"
  "xtime (WARN_ON_ONCE b k) = xtime k"
  "per_cpu (WARN_ON_ONCE b k) = per_cpu k"
  "calls (WARN_ON_ONCE b k) = calls k @ (if b then [Warn_on_once] else [])"
  by (simp_all add: WARN_ON_ONCE_def)

lemma set_ts_set_ts [simp]: "set_ts cpu ts (set_ts cpu ts' k) = set_ts cpu ts k"
  by (simp add: set_ts_def)

lemma atomic_inc_simps [simp]:
  "ts_of (atomic_inc k) c = ts_of k c"
  "calls (atomic_inc k) = calls k"
  "per_cpu (atomic_inc k) = per_cpu k"
  "tick_do_timer_cpu (atomic_inc k) = tick_do_timer_cpu k"
  "xtime (atomic_inc k) = xtime k"
  "jiffies (atomic_inc k) = jiffies k"
  "nr_cpus_user_nohz (atomic_inc k) = nr_cpus_user_nohz k + 1"
  by (simp_all add: atomic_inc_def ts_of_def jiffies_def)

lemma clear_user_nohz_simps [simp]:
  "ts_of (clear_user_nohz cpu k) c =
     (if c = cpu then (ts_of k cpu)\<lparr>user_nohz := False\<rparr> else ts_of k c)"
  "calls (clear_user_nohz cpu k) =
     calls k @ (if nr_cpus_user_nohz k - 1 <s 0 then [Warn_on_once] else [])"
  "tick_do_timer_cpu (clear_user_nohz cpu k) = tick_do_timer_cpu k"
  "xtime (clear_user_nohz cpu k) = xtime k"
  "jiffies (clear_user_nohz cpu k) = jiffies k"
  "nr_cpus_user_nohz (clear_user_nohz cpu k) = nr_cpus_user_nohz k - 1"
  "next_event (per_cpu (clear_user_nohz cpu k) c) = next_event (per_cpu k c)"
  "nohz_task_ext_qs (per_cpu (clear_user_nohz cpu k) c) = nohz_task_ext_qs (per_cpu k c)"
  "TIF_NOHZ (per_cpu (clear_user_nohz cpu k) c) = TIF_NOHZ (per_cpu k c)"
  by (simp_all add: clear_user_nohz_def atomic_add_negative_def Let_def ts_of_def set_ts_def
      jiffies_def WARN_ON_ONCE_def trace_def)

lemma thread_flag_simps [simp]:
  "ts_of (set_thread_flag_TIF_NOHZ cpu b k) c = ts_of k c"
  "calls (set_thread_flag_TIF_NOHZ cpu b k) = calls k"
  "jiffies (set_thread_flag_TIF_NOHZ cpu b k) = jiffies k"
  "nr_cpus_user_nohz (set_thread_flag_TIF_NOHZ cpu b k) = nr_cpus_user_nohz k"
  "TIF_NOHZ (per_cpu (set_thread_flag_TIF_NOHZ cpu b k) c) =
     (if c = cpu then b else TIF_NOHZ (per_cpu k c))"
  "next_event (per_cpu (set_thread_flag_TIF_NOHZ cpu b k) c) = next_event (per_cpu k c)"
  "nohz_task_ext_qs (per_cpu (set_thread_flag_TIF_NOHZ cpu b k) c) =
     nohz_task_ext_qs (per_cpu k c)"
  by (simp_all add: set_thread_flag_TIF_NOHZ_def ts_of_def jiffies_def)

lemma ext_qs_simps [simp]:
  "ts_of (set_nohz_task_ext_qs cpu v k) c = ts_of k c"
  "calls (set_nohz_task_ext_qs cpu v k) = calls k"
  "jiffies (set_nohz_task_ext_qs cpu v k) = jiffies k"
  "nr_cpus_user_nohz (set_nohz_task_ext_qs cpu v k) = nr_cpus_user_nohz k"
  "nohz_task_ext_qs (per_cpu (set_nohz_task_ext_qs cpu v k) c) =
     (if c = cpu then v else nohz_task_ext_qs (per_cpu k c))"
  "TIF_NOHZ (per_cpu (set_nohz_task_ext_qs cpu v k) c) = TIF_NOHZ (per_cpu k c)"
  "next_event (per_cpu (set_nohz_task_ext_qs cpu v k) c) = next_event (per_cpu k c)"
  by (simp_all add: set_nohz_task_ext_qs_def ts_of_def jiffies_def)

lemma local_trace [simp]:
  "next_event (per_cpu (WARN_ON_ONCE b k) c) = next_event (per_cpu k c)"
  "TIF_NOHZ (per_cpu (WARN_ON_ONCE b k) c) = TIF_NOHZ (per_cpu k c)"
  "jiffies (WARN_ON_ONCE b k) = jiffies k"
  "next_event (per_cpu (atomic_inc k) c) = next_event (per_cpu k c)"
  "TIF_NOHZ (per_cpu (atomic_inc k) c) = TIF_NOHZ (per_cpu k c)"
  by (simp_all add: WARN_ON_ONCE_def jiffies_def)

lemma set_ts_same [simp]: "set_ts cpu (ts_of k cpu) k = k"
  by (simp add: set_ts_def ts_of_def)

section \<open>The timekeeping duty (C3)\<close>

lemma duty_quiet_pass:
  assumes "cpu \<noteq> TICK_DO_TIMER_NONE"
  shows "check_drop_timer_duty_pass cpu e [] k =
    (if 0 <s nr_cpus_user_nohz k then
       (if tick_do_timer_cpu k = cpu then (Return cpu, [], k)
        else if tick_do_timer_cpu k = TICK_DO_TIMER_NONE
                \<or> (user_nohz (ts_of k (tick_do_timer_cpu k))
                    \<and> (is_idle_task e \<or> \<not> cpuset_cpu_adaptive_nohz e))
          then (Return cpu, [], k\<lparr>tick_do_timer_cpu := cpu\<rparr>)
        else (Return (tick_do_timer_cpu k), [], k))
     else if tick_do_timer_cpu k = cpu
       then (Return TICK_DO_TIMER_NONE, [], k\<lparr>tick_do_timer_cpu := TICK_DO_TIMER_NONE\<rparr>)
     else (Return (tick_do_timer_cpu k), [], k))"
  using assms
  by (auto simp: check_drop_timer_duty_pass_def Let_def update_do_timer_cpu_def)

lemma duty_quiet:
  assumes "cpu \<noteq> TICK_DO_TIMER_NONE" and "interference e = []"
  shows "check_drop_timer_duty cpu e k =
    (if 0 <s nr_cpus_user_nohz k then
       (if tick_do_timer_cpu k = cpu
          then \<lparr>duty_handler = cpu, duty_nrepeat = 0, duty_warned = False,
                duty_sched = [], duty_kernel = k\<rparr>
        else if tick_do_timer_cpu k = TICK_DO_TIMER_NONE
                \<or> (user_nohz (ts_of k (tick_do_timer_cpu k))
                    \<and> (is_idle_task e \<or> \<not> cpuset_cpu_adaptive_nohz e))
          then \<lparr>duty_handler = cpu, duty_nrepeat = 0, duty_warned = False,
                duty_sched = [], duty_kernel = k\<lparr>tick_do_timer_cpu := cpu\<rparr>\<rparr>
        else \<lparr>duty_handler = tick_do_timer_cpu k, duty_nrepeat = 0, duty_warned = False,
               duty_sched = [], duty_kernel = k\<rparr>)
     else if tick_do_timer_cpu k = cpu
       then \<lparr>duty_handler = TICK_DO_TIMER_NONE, duty_nrepeat = 0, duty_warned = False,
             duty_sched = [], duty_kernel = k\<lparr>tick_do_timer_cpu := TICK_DO_TIMER_NONE\<rparr>\<rparr>
     else \<lparr>duty_handler = tick_do_timer_cpu k, duty_nrepeat = 0, duty_warned = False,
            duty_sched = [], duty_kernel = k\<rparr>)"
  using assms
  by (simp add: check_drop_timer_duty_def duty_quiet_pass WARN_ON_ONCE_def Let_def
      word_sless_alt)

lemmas example_defs =
  boot_kernel_def boot_cpu_local_def boot_tick_sched_def quiet_env_def at_jiffies_def
  with_mode_def with_user_nohz_def duty_race_kernel_def duty_race_env_def
  claim_duty_kernel_def idle_env_def drop_duty_kernel_def

text \<open>
  Claim C3 says that \<^verbatim>\<open>check_drop_timer_duty\<close> never makes more than two passes. The
  function's own \<^verbatim>\<open>WARN_ON_ONCE(++nrepeat > 1)\<close> says the same, but nothing bounds the
  \<^verbatim>\<open>goto repeat\<close>: when CPU 1 drops the duty and then CPU 2 takes it, each between a read
  of \<^verbatim>\<open>tick_do_timer_cpu\<close> by CPU 0 and the \<^verbatim>\<open>cmpxchg\<close> that follows, CPU 0 makes a third
  pass, with \<^verbatim>\<open>nrepeat = 2\<close>, and the warning fires.
\<close>

theorem C3_third_pass:
  "duty_nrepeat (check_drop_timer_duty 0 duty_race_env duty_race_kernel) = 2
   \<and> duty_warned (check_drop_timer_duty 0 duty_race_env duty_race_kernel)
   \<and> duty_handler (check_drop_timer_duty 0 duty_race_env duty_race_kernel) = 2
   \<and> calls (duty_kernel (check_drop_timer_duty 0 duty_race_env duty_race_kernel))
       = [Warn_on_once]"
  by (simp add: check_drop_timer_duty_def check_drop_timer_duty_pass_def Let_def
      update_do_timer_cpu_def example_defs TICK_DO_TIMER_NONE_def atomic_inc_def
      WARN_ON_ONCE_def set_ts_def ts_of_def trace_def word_sless_alt)

section \<open>What the duty step leaves alone\<close>

lemma interfere_keeps:
  assumes "interfere sched k = (sched', k')"
    and "\<And>s k. s \<in> set sched \<Longrightarrow> P k \<Longrightarrow> P (env_apply s k)"
    and "P k"
  shows "P k' \<and> set sched' \<subseteq> set sched"
  using assms by (cases sched) (auto simp: interfere_def)

lemma pass_keeps:
  assumes p: "check_drop_timer_duty_pass cpu e sched k = (r, sched', k')"
    and env: "\<And>s k. s \<in> set sched \<Longrightarrow> P k \<Longrightarrow> P (env_apply s k)"
    and upd: "\<And>k c. P k \<Longrightarrow> P (k\<lparr>tick_do_timer_cpu := c\<rparr>)"
    and k: "P k"
  shows "P k' \<and> set sched' \<subseteq> set sched"
proof -
  obtain s1 k1 where i1: "interfere sched k = (s1, k1)" by (cases "interfere sched k")
  obtain s2 k2 where i2: "interfere s1 k1 = (s2, k2)" by (cases "interfere s1 k1")
  obtain s3 k3 where i3: "interfere s2 k2 = (s3, k3)" by (cases "interfere s2 k2")
  obtain s4 k4 where i4: "interfere s3 k3 = (s4, k4)" by (cases "interfere s3 k3")
  have a1: "P k1 \<and> set s1 \<subseteq> set sched" using interfere_keeps [OF i1, of P] env k by blast
  have a2: "P k2 \<and> set s2 \<subseteq> set sched"
    using interfere_keeps [OF i2, of P] env a1 by blast
  have a3: "P k3 \<and> set s3 \<subseteq> set sched"
    using interfere_keeps [OF i3, of P] env a2 by blast
  have a4: "P k4 \<and> set s4 \<subseteq> set sched"
    using interfere_keeps [OF i4, of P] env a3 by blast
  have u: "\<And>c n k. P k \<Longrightarrow> P (snd (update_do_timer_cpu c n k))"
    by (simp add: update_do_timer_cpu_def upd)
  show ?thesis
  proof (cases "0 <s nr_cpus_user_nohz k1")
    case True
    then show ?thesis
      using p a1 a2 a3 a4 u i1 i2 i3 i4
      by (auto simp: check_drop_timer_duty_pass_def Let_def split_beta split: if_splits)
  next
    case False
    obtain s2' k2' where j2: "interfere s2 (snd (update_do_timer_cpu cpu TICK_DO_TIMER_NONE k2)) = (s2', k2')"
      by (cases "interfere s2 (snd (update_do_timer_cpu cpu TICK_DO_TIMER_NONE k2))")
    have b: "P k2' \<and> set s2' \<subseteq> set sched"
      using interfere_keeps [OF j2, of P] env a2 u by blast
    show ?thesis
      using False p a1 a2 b i1 i2 j2
      by (auto simp: check_drop_timer_duty_pass_def Let_def split_beta split: if_splits)
  qed
qed

lemma duty_from_keeps:
  assumes env: "\<And>s k. s \<in> set sched \<Longrightarrow> P k \<Longrightarrow> P (env_apply s k)"
    and upd: "\<And>k c. P k \<Longrightarrow> P (k\<lparr>tick_do_timer_cpu := c\<rparr>)"
    and warn: "\<And>k. P k \<Longrightarrow> P (trace Warn_on_once k)"
    and k: "P k"
  shows "P (duty_kernel (check_drop_timer_duty_from n w cpu e sched k))"
  using env k
proof (induction n w cpu e sched k rule: check_drop_timer_duty_from.induct)
  case (1 nrepeat warned cpu e sched k)
  let ?k = "WARN_ON_ONCE (1 <s nrepeat + 1) k"
  have pk: "P ?k" using "1.prems"(2) warn by (simp add: WARN_ON_ONCE_def)
  obtain r sched' k' where p: "check_drop_timer_duty_pass cpu e sched ?k = (r, sched', k')"
    by (cases "check_drop_timer_duty_pass cpu e sched ?k")
  have q: "P k' \<and> set sched' \<subseteq> set sched"
    using pass_keeps [OF p, of P] "1.prems"(1) upd pk by blast
  show ?case
  proof (cases r)
    case (Return x)
    then show ?thesis using p q
      by (subst check_drop_timer_duty_from.simps) (simp add: Let_def)
  next
    case Repeat
    have "P (duty_kernel (check_drop_timer_duty_from (nrepeat + 1)
               (warned \<or> 1 <s nrepeat + 1) cpu e sched' k'))"
    proof (rule "1.IH" [OF refl refl refl p [symmetric] Repeat refl])
      show "\<And>s k. s \<in> set sched' \<Longrightarrow> P k \<Longrightarrow> P (env_apply s k)"
        using "1.prems"(1) q by blast
      show "P k'" using q by simp
    qed
    then show ?thesis using p Repeat
      by (subst check_drop_timer_duty_from.simps) (simp add: Let_def)
  qed
qed


lemma env_apply_frame [simp]:
  "next_event (per_cpu (env_apply s k) c) = next_event (per_cpu k c)"
  "xtime (env_apply s k) = xtime k"
  by (cases s; simp)+








section \<open>Stopping the tick and the timekeeping duty (C2)\<close>

lemma stop_tick_out_simps [simp]:
  "fst (stop_tick_out now cpu nj lj ret k) = ret"
  "calls (snd (stop_tick_out now cpu nj lj ret k)) = calls k"
  "tick_do_timer_cpu (snd (stop_tick_out now cpu nj lj ret k)) = tick_do_timer_cpu k"
  "nr_cpus_user_nohz (snd (stop_tick_out now cpu nj lj ret k)) = nr_cpus_user_nohz k"
  "xtime (snd (stop_tick_out now cpu nj lj ret k)) = xtime k"
  "next_event (per_cpu (snd (stop_tick_out now cpu nj lj ret k)) c) = next_event (per_cpu k c)"
  "ts_of (snd (stop_tick_out now cpu nj lj ret k)) c =
     (if c = cpu
      then (ts_of k cpu)\<lparr>ts_next_jiffies := nj, ts_last_jiffies := lj,
              sleep_length := ktime_sub (next_event (per_cpu k cpu)) now\<rparr>
      else ts_of k c)"
  by (simp_all add: stop_tick_out_def)



lemma hw_simps [simp]:
  "calls (hrtimer_start cpu tim armed k) = calls k @ [Hrtimer_start tim]"
  "calls (hrtimer_cancel cpu k) = calls k @ [Hrtimer_cancel]"
  "calls (tick_program_event cpu tim k) = calls k @ [Tick_program_event tim]"
  "ts_of (hrtimer_start cpu tim armed k) c =
     (if c = cpu then (ts_of k cpu)\<lparr>sched_timer :=
        \<lparr>hrtimer_get_expires = tim, hrtimer_active = armed\<rparr>\<rparr> else ts_of k c)"
  "ts_of (hrtimer_cancel cpu k) c =
     (if c = cpu then (ts_of k cpu)\<lparr>sched_timer :=
        (sched_timer (ts_of k cpu))\<lparr>hrtimer_active := False\<rparr>\<rparr> else ts_of k c)"
  "ts_of (tick_program_event cpu tim k) c = ts_of k c"
  "next_event (per_cpu (hrtimer_start cpu tim armed k) c) =
     (if c = cpu then tim else next_event (per_cpu k c))"
  "next_event (per_cpu (hrtimer_cancel cpu k) c) = next_event (per_cpu k c)"
  "next_event (per_cpu (tick_program_event cpu tim k) c) =
     (if c = cpu then tim else next_event (per_cpu k c))"
  "xtime (hrtimer_start cpu tim armed k) = xtime k"
  "xtime (hrtimer_cancel cpu k) = xtime k"
  "xtime (tick_program_event cpu tim k) = xtime k"
  "tick_do_timer_cpu (hrtimer_start cpu tim armed k) = tick_do_timer_cpu k"
  "tick_do_timer_cpu (hrtimer_cancel cpu k) = tick_do_timer_cpu k"
  "tick_do_timer_cpu (tick_program_event cpu tim k) = tick_do_timer_cpu k"
  "nr_cpus_user_nohz (hrtimer_start cpu tim armed k) = nr_cpus_user_nohz k"
  "nr_cpus_user_nohz (hrtimer_cancel cpu k) = nr_cpus_user_nohz k"
  "nr_cpus_user_nohz (tick_program_event cpu tim k) = nr_cpus_user_nohz k"
  by (simp_all add: hrtimer_start_def hrtimer_cancel_def tick_program_event_def Let_def
      ts_of_def set_ts_def trace_def)


lemmas state_defs =
  TICK_DO_TIMER_NONE_def atomic_inc_def WARN_ON_ONCE_def set_ts_def ts_of_def trace_def
  jiffies_def word_sless_alt word_sle_eq








section \<open>Flushing the accounting (C8)\<close>

text \<open>
  A snapshot one tick ahead of the counter (the tick handlers increment
  \<open>saved_jiffies\<close> while the tick is stopped) makes the elapsed count \<open>2^64 - 1\<close>. The
  flush accounts nothing, and it logs nothing either: the state, trace included, is
  unchanged.
\<close>

theorem C8_counterexample:
  "LONG_MAX \<le> jiffies one_off_kernel - saved_jiffies (ts_of one_off_kernel 0)
   \<and> saved_jiffies_whence (ts_of one_off_kernel 0) = JIFFIES_SAVED_USER
   \<and> tick_nohz_account_ticks 0 one_off_kernel = one_off_kernel
   \<and> calls (tick_nohz_account_ticks 0 one_off_kernel) = []"
  by (simp add: tick_nohz_account_ticks_def Let_def one_off_kernel_def boot_kernel_def
      boot_tick_sched_def jiffies_def LONG_MAX_def)

text \<open>
  Claim C8, as the code has it. With \<open>elapsed = jiffies - saved_jiffies\<close> (modulo
  \<open>2^64\<close>):
  \<^item> when \<open>elapsed\<close> is neither zero nor at least \<open>LONG_MAX\<close>, exactly one call hands
    \<open>elapsed\<close> ticks to the sink that \<open>saved_jiffies_whence\<close> selects (idle, user or
    system), and nothing else changes;
  \<^item> when \<open>elapsed\<close> is zero, or at least \<open>LONG_MAX\<close>, or the reason is
    \<open>JIFFIES_SAVED_NONE\<close>, the state is unchanged: nothing is accounted and nothing is
    logged;
  \<^item> the only warning is for a reason outside the four values, and then nothing is
    accounted.
\<close>

theorem C8_tick_nohz_account_ticks:
  fixes cpu :: c_int and k :: kernel
  shows
   "(jiffies k - saved_jiffies (ts_of k cpu) \<noteq> 0
       \<and> jiffies k - saved_jiffies (ts_of k cpu) < LONG_MAX \<longrightarrow>
      (saved_jiffies_whence (ts_of k cpu) = JIFFIES_SAVED_IDLE \<longrightarrow>
         tick_nohz_account_ticks cpu k =
           k\<lparr>calls := calls k @ [Account_idle_ticks (jiffies k - saved_jiffies (ts_of k cpu))]\<rparr>)
      \<and> (saved_jiffies_whence (ts_of k cpu) = JIFFIES_SAVED_USER \<longrightarrow>
         tick_nohz_account_ticks cpu k =
           k\<lparr>calls := calls k @ [Account_user_ticks (jiffies k - saved_jiffies (ts_of k cpu))]\<rparr>)
      \<and> (saved_jiffies_whence (ts_of k cpu) = JIFFIES_SAVED_SYS \<longrightarrow>
         tick_nohz_account_ticks cpu k =
           k\<lparr>calls := calls k @ [Account_system_ticks (jiffies k - saved_jiffies (ts_of k cpu))]\<rparr>)
      \<and> (\<forall>v. saved_jiffies_whence (ts_of k cpu) = JIFFIES_SAVED_invalid v \<longrightarrow>
         tick_nohz_account_ticks cpu k = k\<lparr>calls := calls k @ [Warn_on_once]\<rparr>))
    \<and> (jiffies k - saved_jiffies (ts_of k cpu) = 0
         \<or> LONG_MAX \<le> jiffies k - saved_jiffies (ts_of k cpu)
         \<or> saved_jiffies_whence (ts_of k cpu) = JIFFIES_SAVED_NONE \<longrightarrow>
       tick_nohz_account_ticks cpu k = k)"
  by (auto simp: tick_nohz_account_ticks_def Let_def trace_def WARN_ON_ONCE_def
      split: jiffies_whence.splits)

theorem C8_tick_nohz_account_ticks_witness:
  "jiffies (at_jiffies 7 one_off_kernel) - saved_jiffies (ts_of (at_jiffies 7 one_off_kernel) 0) = 6
   \<and> (6 :: ulong) < LONG_MAX
   \<and> saved_jiffies_whence (ts_of (at_jiffies 7 one_off_kernel) 0) = JIFFIES_SAVED_USER
   \<and> calls (tick_nohz_account_ticks 0 (at_jiffies 7 one_off_kernel)) = [Account_user_ticks 6]
   \<and> jiffies (at_jiffies 1 one_off_kernel) - saved_jiffies (ts_of (at_jiffies 1 one_off_kernel) 0) = 0
   \<and> tick_nohz_account_ticks 0 (at_jiffies 1 one_off_kernel) = at_jiffies 1 one_off_kernel"
proof -
  have f: "jiffies (at_jiffies 7 one_off_kernel)
             - saved_jiffies (ts_of (at_jiffies 7 one_off_kernel) 0) = 6"
    "saved_jiffies_whence (ts_of (at_jiffies 7 one_off_kernel) 0) = JIFFIES_SAVED_USER"
    "calls (at_jiffies 7 one_off_kernel) = []"
    "jiffies (at_jiffies 1 one_off_kernel)
       - saved_jiffies (ts_of (at_jiffies 1 one_off_kernel) 0) = 0"
    by (simp_all add: one_off_kernel_def boot_kernel_def boot_tick_sched_def at_jiffies_def
        jiffies_def ts_of_def set_ts_def)
  have l: "(6 :: ulong) \<noteq> 0" "(6 :: ulong) < LONG_MAX" by (simp_all add: LONG_MAX_def)
  have 1: "calls (tick_nohz_account_ticks 0 (at_jiffies 7 one_off_kernel))
             = [Account_user_ticks 6]"
    using C8_tick_nohz_account_ticks [of "at_jiffies 7 one_off_kernel" 0, THEN conjunct1]
    by (simp add: f l)
  have 2: "tick_nohz_account_ticks 0 (at_jiffies 1 one_off_kernel) = at_jiffies 1 one_off_kernel"
    using C8_tick_nohz_account_ticks [of "at_jiffies 1 one_off_kernel" 0, THEN conjunct2]
    by (simp add: f)
  show ?thesis using 1 2 f l by simp
qed

section \<open>The idle time accessors (C9)\<close>

lemma ktime_to_us_small:
  assumes "0 \<le> x" "x < 2 ^ 63"
  shows "uint (ktime_to_us (word_of_int x)) = x div 1000"
proof -
  have s: "sint (word_of_int x :: 64 word) = x"
    using assms by (simp add: sint_sbintrunc' signed_take_bit_int_eq_self)
  have "0 \<le> x div 1000" using assms by (simp add: pos_imp_zdiv_nonneg_iff)
  moreover have "x div 1000 \<le> x"
    using int_div_mult_le [of 1000 x] \<open>0 \<le> x div 1000\<close> by linarith
  ultimately show ?thesis using assms
    by (simp add: ktime_to_us_def s uint_word_of_int take_bit_int_eq_self)
qed

lemma idling_facts:
  "tick_nohz_enabled idling_kernel"
  "idle_active (ts_of idling_kernel 0)"
  "idle_entrytime (ts_of idling_kernel 0) = 1000000"
  "idle_sleeptime (ts_of idling_kernel 0) = 5000000"
  "iowait_sleeptime (ts_of idling_kernel 0) = 4000000"
  "nr_iowait_cpu quiet_env = 0"
  by (simp_all add: idling_kernel_def boot_kernel_def boot_tick_sched_def quiet_env_def)

text \<open>
  CPU 0 has been idle for 2000000 ns, and the tickless subsystem is enabled. With no
  task of the CPU waiting for I/O, \<^verbatim>\<open>get_cpu_iowait_time_us(0, NULL)\<close> returns the I/O wait
  accumulated before, 4000 us, and not that plus the interval in progress. With such a
  task, \<^verbatim>\<open>get_cpu_idle_time_us(0, NULL)\<close> returns the accumulated 5000 us alone.
\<close>

theorem C9_counterexample:
  "tick_nohz_enabled idling_kernel
   \<and> idle_active (ts_of idling_kernel 0)
   \<and> ktime_sub 3000000 (idle_entrytime (ts_of idling_kernel 0)) = 2000000
   \<and> iowait_sleeptime (ts_of idling_kernel 0) = 4000000
   \<and> get_cpu_iowait_time_us 0 3000000 False quiet_env idling_kernel
        = (4000, None, idling_kernel)
   \<and> idle_sleeptime (ts_of idling_kernel 0) = 5000000
   \<and> get_cpu_idle_time_us 0 3000000 False (quiet_env\<lparr>nr_iowait_cpu := 1\<rparr>) idling_kernel
        = (5000, None, idling_kernel)"
  by (simp add: get_cpu_iowait_time_us_def get_cpu_idle_time_us_def idling_facts Let_def
      ktime_sub_def ktime_add_def ktime_to_us_def)

text \<open>
  Claim C9, as the code has it. With \<open>tick_nohz_enabled = 0\<close> both accessors return
  \<open>(u64)-1\<close>, store nothing and leave the state unchanged. Enabled and called with a NULL
  \<^verbatim>\<open>last_update_time\<close>, they leave the state unchanged and return, in microseconds, the
  accumulator; the interval since \<open>idle_entrytime\<close> is added only while the CPU is
  idle-active, by \<^verbatim>\<open>get_cpu_idle_time_us\<close> when no task of the CPU waits for I/O and by
  \<^verbatim>\<open>get_cpu_iowait_time_us\<close> when one does. While the sum stays in the signed 64-bit
  range and is not negative, the value returned is that sum of nanoseconds divided by
  1000, rounded down.
\<close>

theorem C9_get_cpu_time_us:
  fixes cpu :: c_int and now :: ktime_t and e :: env and k :: kernel
  shows
   "(\<not> tick_nohz_enabled k \<longrightarrow>
       get_cpu_idle_time_us cpu now wants e k = (- 1, None, k)
       \<and> get_cpu_iowait_time_us cpu now wants e k = (- 1, None, k)
       \<and> unat (fst (get_cpu_idle_time_us cpu now wants e k)) = 2 ^ 64 - 1)
    \<and> (tick_nohz_enabled k \<longrightarrow>
       get_cpu_idle_time_us cpu now False e k =
         (ktime_to_us
            (if idle_active (ts_of k cpu) \<and> nr_iowait_cpu e = 0
             then idle_sleeptime (ts_of k cpu) + (now - idle_entrytime (ts_of k cpu))
             else idle_sleeptime (ts_of k cpu)),
          None, k)
       \<and> get_cpu_iowait_time_us cpu now False e k =
         (ktime_to_us
            (if idle_active (ts_of k cpu) \<and> nr_iowait_cpu e \<noteq> 0
             then iowait_sleeptime (ts_of k cpu) + (now - idle_entrytime (ts_of k cpu))
             else iowait_sleeptime (ts_of k cpu)),
          None, k))
    \<and> (tick_nohz_enabled k \<and> idle_active (ts_of k cpu) \<and> nr_iowait_cpu e = 0
         \<and> 0 \<le> sint (idle_sleeptime (ts_of k cpu)) + (sint now - sint (idle_entrytime (ts_of k cpu)))
         \<and> sint (idle_sleeptime (ts_of k cpu)) + (sint now - sint (idle_entrytime (ts_of k cpu)))
             < 2 ^ 63 \<longrightarrow>
       uint (fst (get_cpu_idle_time_us cpu now False e k)) =
         (sint (idle_sleeptime (ts_of k cpu)) + (sint now - sint (idle_entrytime (ts_of k cpu))))
           div 1000)
    \<and> (tick_nohz_enabled k \<and> idle_active (ts_of k cpu) \<and> nr_iowait_cpu e \<noteq> 0
         \<and> 0 \<le> sint (iowait_sleeptime (ts_of k cpu)) + (sint now - sint (idle_entrytime (ts_of k cpu)))
         \<and> sint (iowait_sleeptime (ts_of k cpu)) + (sint now - sint (idle_entrytime (ts_of k cpu)))
             < 2 ^ 63 \<longrightarrow>
       uint (fst (get_cpu_iowait_time_us cpu now False e k)) =
         (sint (iowait_sleeptime (ts_of k cpu)) + (sint now - sint (idle_entrytime (ts_of k cpu))))
           div 1000)"
proof (intro conjI impI)
  assume h: "tick_nohz_enabled k \<and> idle_active (ts_of k cpu) \<and> nr_iowait_cpu e = 0
         \<and> 0 \<le> sint (idle_sleeptime (ts_of k cpu)) + (sint now - sint (idle_entrytime (ts_of k cpu)))
         \<and> sint (idle_sleeptime (ts_of k cpu)) + (sint now - sint (idle_entrytime (ts_of k cpu)))
             < 2 ^ 63"
  let ?x = "sint (idle_sleeptime (ts_of k cpu)) + (sint now - sint (idle_entrytime (ts_of k cpu)))"
  have w: "idle_sleeptime (ts_of k cpu) + (now - idle_entrytime (ts_of k cpu)) = word_of_int ?x"
    by simp
  show "uint (fst (get_cpu_idle_time_us cpu now False e k)) = ?x div 1000"
    using h ktime_to_us_small [of ?x]
    by (simp add: get_cpu_idle_time_us_def Let_def ktime_add_def ktime_sub_def w del: of_int_add of_int_diff)
next
  assume h: "tick_nohz_enabled k \<and> idle_active (ts_of k cpu) \<and> nr_iowait_cpu e \<noteq> 0
         \<and> 0 \<le> sint (iowait_sleeptime (ts_of k cpu)) + (sint now - sint (idle_entrytime (ts_of k cpu)))
         \<and> sint (iowait_sleeptime (ts_of k cpu)) + (sint now - sint (idle_entrytime (ts_of k cpu)))
             < 2 ^ 63"
  let ?x = "sint (iowait_sleeptime (ts_of k cpu)) + (sint now - sint (idle_entrytime (ts_of k cpu)))"
  have w: "iowait_sleeptime (ts_of k cpu) + (now - idle_entrytime (ts_of k cpu)) = word_of_int ?x"
    by simp
  have p: "0 < nr_iowait_cpu e" using h by (simp add: word_greater_zero_iff)
  show "uint (fst (get_cpu_iowait_time_us cpu now False e k)) = ?x div 1000"
    using h p ktime_to_us_small [of ?x]
    by (simp add: get_cpu_iowait_time_us_def Let_def ktime_add_def ktime_sub_def w del: of_int_add of_int_diff)
qed (auto simp: get_cpu_idle_time_us_def get_cpu_iowait_time_us_def Let_def ktime_add_def
       ktime_sub_def word_greater_zero_iff unsigned_minus_1_eq_mask mask_eq_exp_minus_1)

theorem C9_get_cpu_time_us_witness:
  "get_cpu_idle_time_us 0 3000000 False quiet_env (idling_kernel\<lparr>tick_nohz_enabled := False\<rparr>)
      = (- 1, None, idling_kernel\<lparr>tick_nohz_enabled := False\<rparr>)
   \<and> get_cpu_iowait_time_us 0 3000000 True quiet_env (idling_kernel\<lparr>tick_nohz_enabled := False\<rparr>)
      = (- 1, None, idling_kernel\<lparr>tick_nohz_enabled := False\<rparr>)
   \<and> get_cpu_idle_time_us 0 3000000 False quiet_env idling_kernel = (7000, None, idling_kernel)
   \<and> uint (fst (get_cpu_idle_time_us 0 3000000 False quiet_env idling_kernel)) = 7000
   \<and> get_cpu_iowait_time_us 0 3000000 False (quiet_env\<lparr>nr_iowait_cpu := 1\<rparr>) idling_kernel
      = (6000, None, idling_kernel)
   \<and> uint (fst (get_cpu_iowait_time_us 0 3000000 False (quiet_env\<lparr>nr_iowait_cpu := 1\<rparr>)
         idling_kernel)) = 6000"
proof -
  let ?off = "idling_kernel\<lparr>tick_nohz_enabled := False\<rparr>"
  let ?io = "quiet_env\<lparr>nr_iowait_cpu := 1\<rparr>"
  have 1: "get_cpu_idle_time_us 0 3000000 False quiet_env ?off = (- 1, None, ?off)"
    using C9_get_cpu_time_us [of ?off 0 3000000 False quiet_env, THEN conjunct1] by simp
  have 2: "get_cpu_iowait_time_us 0 3000000 True quiet_env ?off = (- 1, None, ?off)"
    using C9_get_cpu_time_us [of ?off 0 3000000 True quiet_env, THEN conjunct1] by simp
  note E = C9_get_cpu_time_us [of idling_kernel 0 3000000 False quiet_env, THEN conjunct2]
  note F = C9_get_cpu_time_us [of idling_kernel 0 3000000 False ?io, THEN conjunct2]
  have 3: "get_cpu_idle_time_us 0 3000000 False quiet_env idling_kernel
      = (7000, None, idling_kernel)"
    using E [THEN conjunct1] by (simp add: idling_facts ktime_to_us_def)
  have 4: "uint (fst (get_cpu_idle_time_us 0 3000000 False quiet_env idling_kernel)) = 7000"
    using E [THEN conjunct2, THEN conjunct1] by (simp add: idling_facts)
  have 5: "get_cpu_iowait_time_us 0 3000000 False ?io idling_kernel
      = (6000, None, idling_kernel)"
    using F [THEN conjunct1] by (simp add: idling_facts ktime_to_us_def)
  have 6: "uint (fst (get_cpu_iowait_time_us 0 3000000 False ?io idling_kernel)) = 6000"
    using F [THEN conjunct2, THEN conjunct2] by (simp add: idling_facts)
  show ?thesis using 1 2 3 4 5 6 by simp
qed

section \<open>May the idle tick be stopped? (C5)\<close>

lemma can_stop_idle_tick_ret:
  "fst (can_stop_idle_tick cpu e k) =
     (\<not> (nohz_mode (ts_of k cpu) = NOHZ_MODE_INACTIVE \<or> need_resched e
          \<or> (local_softirq_pending e \<noteq> 0 \<and> cpu_online e)))"
  by (simp add: can_stop_idle_tick_def Let_def)

lemma can_stop_idle_tick_log:
  "calls (snd (can_stop_idle_tick cpu e k)) = calls k @
     (if nohz_mode (ts_of k cpu) \<noteq> NOHZ_MODE_INACTIVE \<and> \<not> need_resched e
         \<and> local_softirq_pending e \<noteq> 0 \<and> cpu_online e \<and> ratelimit k <s 10
      then [Printk_softirq_pending (local_softirq_pending e)] else [])"
  "ratelimit (snd (can_stop_idle_tick cpu e k)) =
     (if nohz_mode (ts_of k cpu) \<noteq> NOHZ_MODE_INACTIVE \<and> \<not> need_resched e
         \<and> local_softirq_pending e \<noteq> 0 \<and> cpu_online e \<and> ratelimit k <s 10
      then ratelimit k + 1 else ratelimit k)"
  by (simp_all add: can_stop_idle_tick_def Let_def)

lemma ratelimit_step:
  assumes "0 \<le> sint (ratelimit k)" "sint (ratelimit k) \<le> 10"
  shows "0 \<le> sint (ratelimit (snd (can_stop_idle_tick cpu e k)))
       \<and> sint (ratelimit (snd (can_stop_idle_tick cpu e k))) \<le> 10
       \<and> int (length (filter is_softirq_printk (calls (snd (can_stop_idle_tick cpu e k)))))
           - sint (ratelimit (snd (can_stop_idle_tick cpu e k)))
         = int (length (filter is_softirq_printk (calls k))) - sint (ratelimit k)"
proof (cases "nohz_mode (ts_of k cpu) \<noteq> NOHZ_MODE_INACTIVE \<and> \<not> need_resched e
         \<and> local_softirq_pending e \<noteq> 0 \<and> cpu_online e \<and> ratelimit k <s 10")
  case True
  then have lt: "sint (ratelimit k) < 10" by (simp add: word_sless_alt)
  have "sint (ratelimit k + 1) = sint (ratelimit k) + 1"
    using sint_add_of_int_no_ovf [of "ratelimit k" 1] assms lt by simp
  then show ?thesis using True assms lt by (simp add: can_stop_idle_tick_log)
next
  case False
  then have "calls (snd (can_stop_idle_tick cpu e k)) = calls k"
    "ratelimit (snd (can_stop_idle_tick cpu e k)) = ratelimit k"
    unfolding can_stop_idle_tick_log by simp_all
  then show ?thesis using assms by simp
qed

lemma ratelimit_all:
  assumes "0 \<le> sint (ratelimit k)" "sint (ratelimit k) \<le> 10"
  shows "0 \<le> sint (ratelimit (can_stop_idle_tick_all cs k))
       \<and> sint (ratelimit (can_stop_idle_tick_all cs k)) \<le> 10
       \<and> int (length (filter is_softirq_printk (calls (can_stop_idle_tick_all cs k))))
           - sint (ratelimit (can_stop_idle_tick_all cs k))
         = int (length (filter is_softirq_printk (calls k))) - sint (ratelimit k)"
  using assms
proof (induction cs arbitrary: k)
  case Nil
  then show ?case by simp
next
  case (Cons c cs)
  obtain cpu e where c: "c = (cpu, e)" by (cases c)
  from ratelimit_step [OF Cons.prems, of cpu e] Cons.IH [of "snd (can_stop_idle_tick cpu e k)"]
  show ?case by (simp add: c)
qed

text \<open>
  On an offline CPU in low-resolution tickless mode, with no reschedule wanted and a soft
  interrupt pending, \<^verbatim>\<open>can_stop_idle_tick\<close> returns true: the pending soft interrupt
  refuses the stop only on an online CPU.
\<close>

theorem C5_counterexample:
  "nohz_mode (ts_of lowres_kernel 0) \<noteq> NOHZ_MODE_INACTIVE
   \<and> \<not> need_resched offline_softirq_env
   \<and> local_softirq_pending offline_softirq_env \<noteq> 0
   \<and> fst (can_stop_idle_tick 0 offline_softirq_env lowres_kernel)"
  by (simp add: can_stop_idle_tick_ret lowres_kernel_def offline_softirq_env_def
      with_mode_def quiet_env_def)

text \<open>
  Claim C5, as the code has it. \<^verbatim>\<open>can_stop_idle_tick\<close> returns false exactly when the
  CPU's mode is \<open>NOHZ_MODE_INACTIVE\<close>, or the scheduler reports need-resched, or a soft
  interrupt is pending locally while the CPU is online. That last refusal is logged
  while the function's counter is below 10, so any run of calls that starts with the
  counter between 0 and 10 logs at most \<open>10 - ratelimit\<close> more lines. When the function
  returns true in \<^verbatim>\<open>__tick_nohz_idle_enter\<close>, \<open>idle_calls\<close> is incremented and the result is
  that of \<^verbatim>\<open>tick_nohz_stop_sched_tick\<close> followed by the bookkeeping of the idle path;
  when it returns false the stop is not attempted.
\<close>

theorem C5_can_stop_idle_tick:
  fixes cpu :: c_int and now :: ktime_t and e :: env and k :: kernel
  shows
   "fst (can_stop_idle_tick cpu e k) =
      (\<not> (nohz_mode (ts_of k cpu) = NOHZ_MODE_INACTIVE \<or> need_resched e
           \<or> (local_softirq_pending e \<noteq> 0 \<and> cpu_online e)))
    \<and> calls (snd (can_stop_idle_tick cpu e k)) = calls k @
         (if nohz_mode (ts_of k cpu) \<noteq> NOHZ_MODE_INACTIVE \<and> \<not> need_resched e
             \<and> local_softirq_pending e \<noteq> 0 \<and> cpu_online e \<and> ratelimit k <s 10
          then [Printk_softirq_pending (local_softirq_pending e)] else [])
    \<and> (0 \<le> sint (ratelimit k) \<and> sint (ratelimit k) \<le> 10 \<longrightarrow>
         int (length (filter is_softirq_printk (calls (can_stop_idle_tick_all cs k))))
           \<le> int (length (filter is_softirq_printk (calls k))) + (10 - sint (ratelimit k)))
    \<and> (fst (can_stop_idle_tick cpu e (tick_nohz_start_idle cpu now k)) \<longrightarrow>
         tick_nohz_idle_enter_inner cpu now e k =
           map_option
             (idle_enter_stopped
                (tick_stopped (ts_of (snd (can_stop_idle_tick cpu e
                    (tick_nohz_start_idle cpu now k))) cpu)) cpu)
             (tick_nohz_stop_sched_tick now cpu e
                (set_ts cpu
                   ((ts_of (snd (can_stop_idle_tick cpu e (tick_nohz_start_idle cpu now k))) cpu)
                      \<lparr>idle_calls := idle_calls (ts_of (snd (can_stop_idle_tick cpu e
                          (tick_nohz_start_idle cpu now k))) cpu) + 1\<rparr>)
                   (snd (can_stop_idle_tick cpu e (tick_nohz_start_idle cpu now k))))))
    \<and> (\<not> fst (can_stop_idle_tick cpu e (tick_nohz_start_idle cpu now k)) \<longrightarrow>
         tick_nohz_idle_enter_inner cpu now e k =
           Some (snd (can_stop_idle_tick cpu e (tick_nohz_start_idle cpu now k))))"
proof (intro conjI impI)
  show "fst (can_stop_idle_tick cpu e k) =
      (\<not> (nohz_mode (ts_of k cpu) = NOHZ_MODE_INACTIVE \<or> need_resched e
           \<or> (local_softirq_pending e \<noteq> 0 \<and> cpu_online e)))"
    by (rule can_stop_idle_tick_ret)
next
  show "calls (snd (can_stop_idle_tick cpu e k)) = calls k @
         (if nohz_mode (ts_of k cpu) \<noteq> NOHZ_MODE_INACTIVE \<and> \<not> need_resched e
             \<and> local_softirq_pending e \<noteq> 0 \<and> cpu_online e \<and> ratelimit k <s 10
          then [Printk_softirq_pending (local_softirq_pending e)] else [])"
    by (rule can_stop_idle_tick_log)
next
  assume "0 \<le> sint (ratelimit k) \<and> sint (ratelimit k) \<le> 10"
  then have r: "0 \<le> sint (ratelimit k)" "sint (ratelimit k) \<le> 10" by simp_all
  from ratelimit_all [OF r, of cs]
  show "int (length (filter is_softirq_printk (calls (can_stop_idle_tick_all cs k))))
           \<le> int (length (filter is_softirq_printk (calls k))) + (10 - sint (ratelimit k))"
    by linarith
next
  assume "fst (can_stop_idle_tick cpu e (tick_nohz_start_idle cpu now k))"
  then show "tick_nohz_idle_enter_inner cpu now e k =
           map_option
             (idle_enter_stopped
                (tick_stopped (ts_of (snd (can_stop_idle_tick cpu e
                    (tick_nohz_start_idle cpu now k))) cpu)) cpu)
             (tick_nohz_stop_sched_tick now cpu e
                (set_ts cpu
                   ((ts_of (snd (can_stop_idle_tick cpu e (tick_nohz_start_idle cpu now k))) cpu)
                      \<lparr>idle_calls := idle_calls (ts_of (snd (can_stop_idle_tick cpu e
                          (tick_nohz_start_idle cpu now k))) cpu) + 1\<rparr>)
                   (snd (can_stop_idle_tick cpu e (tick_nohz_start_idle cpu now k)))))"
    by (simp add: tick_nohz_idle_enter_inner_def Let_def split_beta)
next
  assume "\<not> fst (can_stop_idle_tick cpu e (tick_nohz_start_idle cpu now k))"
  then show "tick_nohz_idle_enter_inner cpu now e k =
           Some (snd (can_stop_idle_tick cpu e (tick_nohz_start_idle cpu now k)))"
    by (simp add: tick_nohz_idle_enter_inner_def Let_def split_beta)
qed

theorem C5_can_stop_idle_tick_witness:
  "fst (can_stop_idle_tick 0 quiet_env lowres_kernel)
   \<and> \<not> fst (can_stop_idle_tick 0 (quiet_env\<lparr>local_softirq_pending := 2\<rparr>) lowres_kernel)
   \<and> calls (snd (can_stop_idle_tick 0 (quiet_env\<lparr>local_softirq_pending := 2\<rparr>) lowres_kernel))
       = [Printk_softirq_pending 2]
   \<and> 0 \<le> sint (ratelimit lowres_kernel) \<and> sint (ratelimit lowres_kernel) \<le> 10
   \<and> int (length (filter is_softirq_printk (calls (can_stop_idle_tick_all
           (replicate 12 (0, quiet_env\<lparr>local_softirq_pending := 2\<rparr>)) lowres_kernel))))
       \<le> 10
   \<and> fst (can_stop_idle_tick 0 quiet_env (tick_nohz_start_idle 0 5 lowres_kernel))
   \<and> tick_nohz_idle_enter_inner 0 5 quiet_env lowres_kernel =
       map_option
         (idle_enter_stopped
            (tick_stopped (ts_of (snd (can_stop_idle_tick 0 quiet_env
                (tick_nohz_start_idle 0 5 lowres_kernel))) 0)) 0)
         (tick_nohz_stop_sched_tick 5 0 quiet_env
            (set_ts 0
               ((ts_of (snd (can_stop_idle_tick 0 quiet_env
                    (tick_nohz_start_idle 0 5 lowres_kernel))) 0)
                  \<lparr>idle_calls := idle_calls (ts_of (snd (can_stop_idle_tick 0 quiet_env
                      (tick_nohz_start_idle 0 5 lowres_kernel))) 0) + 1\<rparr>)
               (snd (can_stop_idle_tick 0 quiet_env (tick_nohz_start_idle 0 5 lowres_kernel)))))
   \<and> tick_nohz_idle_enter_inner 0 5 (quiet_env\<lparr>local_softirq_pending := 2\<rparr>) lowres_kernel =
       Some (snd (can_stop_idle_tick 0 (quiet_env\<lparr>local_softirq_pending := 2\<rparr>)
                    (tick_nohz_start_idle 0 5 lowres_kernel)))"
proof -
  let ?p = "quiet_env\<lparr>local_softirq_pending := 2\<rparr>"
  have f: "nohz_mode (ts_of lowres_kernel 0) = NOHZ_MODE_LOWRES"
    "ratelimit lowres_kernel = 0" "calls lowres_kernel = []"
    "\<not> need_resched quiet_env" "cpu_online quiet_env" "local_softirq_pending quiet_env = 0"
    by (simp_all add: lowres_kernel_def with_mode_def boot_kernel_def quiet_env_def)
  have g: "nohz_mode (ts_of (tick_nohz_start_idle 0 5 lowres_kernel) 0) = NOHZ_MODE_LOWRES"
    by (simp add: tick_nohz_start_idle_def Let_def lowres_kernel_def with_mode_def
        boot_kernel_def boot_cpu_local_def boot_tick_sched_def ts_of_def set_ts_def trace_def)
  note A = C5_can_stop_idle_tick [of 0 quiet_env lowres_kernel]
  note B = C5_can_stop_idle_tick [of 0 ?p lowres_kernel
      "replicate 12 (0, quiet_env\<lparr>local_softirq_pending := 2\<rparr>)"]
  have 1: "fst (can_stop_idle_tick 0 quiet_env lowres_kernel)"
    using A [THEN conjunct1] by (simp add: f)
  have 2: "\<not> fst (can_stop_idle_tick 0 ?p lowres_kernel)"
    using B [THEN conjunct1] by (simp add: f)
  have 3: "calls (snd (can_stop_idle_tick 0 ?p lowres_kernel)) = [Printk_softirq_pending 2]"
    using B [THEN conjunct2, THEN conjunct1] by (simp add: f word_sless_alt)
  have 4: "int (length (filter is_softirq_printk (calls (can_stop_idle_tick_all
           (replicate 12 (0, ?p)) lowres_kernel)))) \<le> 10"
    using B [THEN conjunct2, THEN conjunct2, THEN conjunct1] by (simp add: f)
  note C = C5_can_stop_idle_tick [where cpu = 0 and e = quiet_env and k = lowres_kernel and now = 5,
      THEN conjunct2, THEN conjunct2, THEN conjunct2]
  have 5: "fst (can_stop_idle_tick 0 quiet_env (tick_nohz_start_idle 0 5 lowres_kernel))"
    by (simp add: can_stop_idle_tick_ret g f)
  note 6 = C [THEN conjunct1, rule_format, OF 5]
  note D = C5_can_stop_idle_tick [where cpu = 0 and e = ?p and k = lowres_kernel and now = 5,
      THEN conjunct2, THEN conjunct2, THEN conjunct2, THEN conjunct2]
  have 7: "\<not> fst (can_stop_idle_tick 0 ?p (tick_nohz_start_idle 0 5 lowres_kernel))"
    by (simp add: can_stop_idle_tick_ret g f)
  note 8 = D [rule_format, OF 7]
  show ?thesis using 1 2 3 4 5 6 8 by (simp add: f)
qed

section \<open>Stopping the tick of a busy CPU (C7)\<close>

lemma can_stop_adaptive_tick_frame:
  "ts_of (snd (can_stop_adaptive_tick cpu e k)) c =
     (if c = cpu then (ts_of k cpu)\<lparr>user_nohz := fst (can_stop_adaptive_tick cpu e k)\<rparr>
      else ts_of k c)"
  "\<exists>new. calls (snd (can_stop_adaptive_tick cpu e k)) = calls k @ new \<and> set new \<subseteq> {Warn_on_once}"
  "next_event (per_cpu (snd (can_stop_adaptive_tick cpu e k)) c) = next_event (per_cpu k c)"
  "TIF_NOHZ (per_cpu (snd (can_stop_adaptive_tick cpu e k)) c) = TIF_NOHZ (per_cpu k c)"
  "nohz_task_ext_qs (per_cpu (snd (can_stop_adaptive_tick cpu e k)) c) = nohz_task_ext_qs (per_cpu k c)"
  "jiffies (snd (can_stop_adaptive_tick cpu e k)) = jiffies k"
  by (auto simp: can_stop_adaptive_tick_def Let_def)

lemma cpuset_stop_other_context:
  assumes "irq_regs e = None \<or> irq_regs e = Some False" and "current_mm e"
  shows "tick_nohz_cpuset_stop_tick cpu now e k = Some k
       \<or> tick_nohz_cpuset_stop_tick cpu now e k = Some (snd (can_stop_adaptive_tick cpu e k))"
  using assms
  by (auto simp: tick_nohz_cpuset_stop_tick_def Let_def split_beta)

lemma cpuset_stop_first_stop:
  assumes "\<not> tick_stopped (ts_of k cpu)"
    and "tick_nohz_cpuset_stop_tick cpu now e k = Some k'"
    and "tick_stopped (ts_of k' cpu)"
  shows "(irq_regs e = Some True \<or> \<not> current_mm e)
       \<and> saved_jiffies_whence (ts_of k' cpu) =
           (if irq_regs e = Some True then JIFFIES_SAVED_USER else JIFFIES_SAVED_SYS)
       \<and> saved_jiffies (ts_of k' cpu) = jiffies k'
       \<and> TIF_NOHZ (per_cpu k' cpu)
       \<and> (irq_regs e = Some True \<longrightarrow> nohz_task_ext_qs (per_cpu k' cpu) = 1)"
  using assms
  by (auto simp: tick_nohz_cpuset_stop_tick_def Let_def split_beta can_stop_adaptive_tick_frame
      split: if_splits option.splits)

lemma cpuset_stop_delegates:
  assumes "cpuset_adaptive_nohz e" "\<not> is_idle_task e"
    and "tick_stopped (ts_of k cpu) \<or> nohz_mode (ts_of k cpu) \<noteq> NOHZ_MODE_INACTIVE"
    and "fst (can_stop_adaptive_tick cpu e k)"
    and "irq_regs e = Some True \<or> \<not> current_mm e"
  shows "(tick_nohz_stop_sched_tick now cpu e (snd (can_stop_adaptive_tick cpu e k)) = None
            \<longrightarrow> tick_nohz_cpuset_stop_tick cpu now e k = None)
       \<and> (\<forall>r k1. tick_nohz_stop_sched_tick now cpu e (snd (can_stop_adaptive_tick cpu e k))
                    = Some (r, k1) \<longrightarrow>
              (\<exists>k'. tick_nohz_cpuset_stop_tick cpu now e k = Some k'
                  \<and> tick_stopped (ts_of k' cpu) = tick_stopped (ts_of k1 cpu)))"
  using assms
  by (auto simp: tick_nohz_cpuset_stop_tick_def Let_def split_beta can_stop_adaptive_tick_frame
      split: if_splits option.splits)

lemma busy_facts:
  "ts_of busy_kernel 0 = boot_tick_sched\<lparr>nohz_mode := NOHZ_MODE_HIGHRES\<rparr>"
  "ts_of busy_kernel 1 = boot_tick_sched"
  "tick_do_timer_cpu busy_kernel = 1"
  "nr_cpus_user_nohz busy_kernel = 0"
  "calls busy_kernel = []"
  "jiffies busy_kernel = 100"
  "last_jiffies_update (xtime busy_kernel) = 100000000"
  "tick_period (xtime busy_kernel) = 1000000"
  "next_event (per_cpu busy_kernel 0) = 0"
  by (simp_all add: busy_kernel_def example_defs state_defs)

lemma user_env_facts:
  "cpuset_adaptive_nohz user_env" "cpuset_cpu_adaptive_nohz user_env"
  "\<not> is_idle_task user_env" "irq_regs user_env = Some True" "current_mm user_env"
  "sched_can_stop_tick user_env" "\<not> posix_cpu_timers_running user_env"
  "\<not> rcu_pending user_env" "interference user_env = []"
  "\<not> rcu_needs_cpu user_env" "\<not> printk_needs_cpu user_env" "\<not> arch_needs_cpu user_env"
  "get_next_timer_interrupt user_env 100 = 150" "max_deferment user_env = 4000000000"
  "hrtimer_armed user_env"
  by (simp_all add: user_env_def quiet_env_def)

lemma syscall_env_facts:
  "cpuset_adaptive_nohz syscall_env" "\<not> is_idle_task syscall_env"
  "irq_regs syscall_env = Some False" "current_mm syscall_env"
  "sched_can_stop_tick syscall_env" "\<not> posix_cpu_timers_running syscall_env"
  "\<not> rcu_pending syscall_env"
  by (simp_all add: syscall_env_def user_env_def quiet_env_def)

text \<open>
  A task of an adaptive cpuset, alone on CPU 0, is interrupted in kernel mode: neither
  user mode nor a kernel thread. The call does not stop the tick, but it does not leave
  the per-CPU state as it was: the eligibility check that precedes the test of the
  context has marked the CPU busy-adaptive and incremented \<^verbatim>\<open>nr_cpus_user_nohz\<close>.
\<close>

theorem C7_counterexample:
  "irq_regs syscall_env = Some False \<and> current_mm syscall_env
   \<and> \<not> user_nohz (ts_of busy_kernel 0)
   \<and> nr_cpus_user_nohz busy_kernel = 0
   \<and> tick_nohz_cpuset_stop_tick 0 100000100 syscall_env busy_kernel =
       Some (atomic_inc (set_ts 0 ((ts_of busy_kernel 0)\<lparr>user_nohz := True\<rparr>) busy_kernel))
   \<and> user_nohz (ts_of (atomic_inc (set_ts 0 ((ts_of busy_kernel 0)\<lparr>user_nohz := True\<rparr>)
         busy_kernel)) 0)
   \<and> nr_cpus_user_nohz (atomic_inc (set_ts 0 ((ts_of busy_kernel 0)\<lparr>user_nohz := True\<rparr>)
         busy_kernel)) = 1"
  by (simp add: tick_nohz_cpuset_stop_tick_def can_stop_adaptive_tick_def Let_def
      syscall_env_facts busy_facts) (simp add: boot_tick_sched_def)

text \<open>
  Claim C7, as the code has it.
  \<^item> In a context that is neither user mode nor a kernel thread without an address space,
    \<^verbatim>\<open>tick_nohz_cpuset_stop_tick\<close> returns without stopping the tick: of the CPU's
    \<open>tick_sched\<close> only the \<open>user_nohz\<close> marker may have changed (together with its
    counter), the armed expiry, the task's \<open>TIF_NOHZ\<close> flag and \<open>nohz_task_ext_qs\<close> are
    as before, and the only call that can have been made is the warning of the counter.
  \<^item> When a call finds the tick running and leaves it stopped, the context was user mode
    or such a kernel thread, \<open>saved_jiffies_whence\<close> is \<open>JIFFIES_SAVED_USER\<close> (user mode) or
    \<open>JIFFIES_SAVED_SYS\<close> (kernel thread), \<open>saved_jiffies\<close> is the current tick counter and
    \<open>TIF_NOHZ\<close> is set (and, from user mode, \<open>nohz_task_ext_qs\<close> is 1).
  \<^item> When the cpuset is adaptive, the task is not the idle task, the mode is not inactive
    (or the tick is stopped already), the CPU is eligible and the context is one of the
    two, the tick is stopped or not as \<^verbatim>\<open>tick_nohz_stop_sched_tick\<close> decides.
\<close>

theorem C7_tick_nohz_cpuset_stop_tick:
  fixes cpu :: c_int and now :: ktime_t and e :: env and k :: kernel
  shows
   "((irq_regs e = None \<or> irq_regs e = Some False) \<and> current_mm e \<longrightarrow>
       (\<exists>k' new. tick_nohz_cpuset_stop_tick cpu now e k = Some k'
          \<and> ts_of k' cpu = (ts_of k cpu)\<lparr>user_nohz := user_nohz (ts_of k' cpu)\<rparr>
          \<and> calls k' = calls k @ new \<and> set new \<subseteq> {Warn_on_once}
          \<and> next_event (per_cpu k' cpu) = next_event (per_cpu k cpu)
          \<and> TIF_NOHZ (per_cpu k' cpu) = TIF_NOHZ (per_cpu k cpu)
          \<and> nohz_task_ext_qs (per_cpu k' cpu) = nohz_task_ext_qs (per_cpu k cpu)))
    \<and> (\<not> tick_stopped (ts_of k cpu) \<longrightarrow>
       (\<forall>k'. tick_nohz_cpuset_stop_tick cpu now e k = Some k' \<and> tick_stopped (ts_of k' cpu) \<longrightarrow>
          (irq_regs e = Some True \<or> \<not> current_mm e)
          \<and> saved_jiffies_whence (ts_of k' cpu) =
              (if irq_regs e = Some True then JIFFIES_SAVED_USER else JIFFIES_SAVED_SYS)
          \<and> saved_jiffies (ts_of k' cpu) = jiffies k'
          \<and> TIF_NOHZ (per_cpu k' cpu)
          \<and> (irq_regs e = Some True \<longrightarrow> nohz_task_ext_qs (per_cpu k' cpu) = 1)))
    \<and> (cpuset_adaptive_nohz e \<and> \<not> is_idle_task e
         \<and> (tick_stopped (ts_of k cpu) \<or> nohz_mode (ts_of k cpu) \<noteq> NOHZ_MODE_INACTIVE)
         \<and> fst (can_stop_adaptive_tick cpu e k)
         \<and> (irq_regs e = Some True \<or> \<not> current_mm e) \<longrightarrow>
       (tick_nohz_stop_sched_tick now cpu e (snd (can_stop_adaptive_tick cpu e k)) = None
            \<longrightarrow> tick_nohz_cpuset_stop_tick cpu now e k = None)
       \<and> (\<forall>r k1. tick_nohz_stop_sched_tick now cpu e (snd (can_stop_adaptive_tick cpu e k))
                    = Some (r, k1) \<longrightarrow>
              (\<exists>k'. tick_nohz_cpuset_stop_tick cpu now e k = Some k'
                  \<and> tick_stopped (ts_of k' cpu) = tick_stopped (ts_of k1 cpu))))"
proof (intro conjI impI)
  assume h: "(irq_regs e = None \<or> irq_regs e = Some False) \<and> current_mm e"
  let ?P = "\<lambda>k'. \<exists>new. tick_nohz_cpuset_stop_tick cpu now e k = Some k'
          \<and> ts_of k' cpu = (ts_of k cpu)\<lparr>user_nohz := user_nohz (ts_of k' cpu)\<rparr>
          \<and> calls k' = calls k @ new \<and> set new \<subseteq> {Warn_on_once}
          \<and> next_event (per_cpu k' cpu) = next_event (per_cpu k cpu)
          \<and> TIF_NOHZ (per_cpu k' cpu) = TIF_NOHZ (per_cpu k cpu)
          \<and> nohz_task_ext_qs (per_cpu k' cpu) = nohz_task_ext_qs (per_cpu k cpu)"
  from h cpuset_stop_other_context [of e cpu now k]
  consider "tick_nohz_cpuset_stop_tick cpu now e k = Some k"
    | "tick_nohz_cpuset_stop_tick cpu now e k = Some (snd (can_stop_adaptive_tick cpu e k))"
    by blast
  then have "\<exists>k'. ?P k'"
  proof cases
    case 1
    then have "?P k" by simp
    then show ?thesis ..
  next
    case 2
    obtain new where n: "calls (snd (can_stop_adaptive_tick cpu e k)) = calls k @ new"
      "set new \<subseteq> {Warn_on_once}"
      using can_stop_adaptive_tick_frame(2) [of cpu e k] by blast
    have "?P (snd (can_stop_adaptive_tick cpu e k))"
      using 2 n by (simp add: can_stop_adaptive_tick_frame)
    then show ?thesis ..
  qed
  then show "\<exists>k' new. tick_nohz_cpuset_stop_tick cpu now e k = Some k'
          \<and> ts_of k' cpu = (ts_of k cpu)\<lparr>user_nohz := user_nohz (ts_of k' cpu)\<rparr>
          \<and> calls k' = calls k @ new \<and> set new \<subseteq> {Warn_on_once}
          \<and> next_event (per_cpu k' cpu) = next_event (per_cpu k cpu)
          \<and> TIF_NOHZ (per_cpu k' cpu) = TIF_NOHZ (per_cpu k cpu)
          \<and> nohz_task_ext_qs (per_cpu k' cpu) = nohz_task_ext_qs (per_cpu k cpu)"
    by blast
next
  assume n: "\<not> tick_stopped (ts_of k cpu)"
  show "\<forall>k'. tick_nohz_cpuset_stop_tick cpu now e k = Some k' \<and> tick_stopped (ts_of k' cpu) \<longrightarrow>
          (irq_regs e = Some True \<or> \<not> current_mm e)
          \<and> saved_jiffies_whence (ts_of k' cpu) =
              (if irq_regs e = Some True then JIFFIES_SAVED_USER else JIFFIES_SAVED_SYS)
          \<and> saved_jiffies (ts_of k' cpu) = jiffies k'
          \<and> TIF_NOHZ (per_cpu k' cpu)
          \<and> (irq_regs e = Some True \<longrightarrow> nohz_task_ext_qs (per_cpu k' cpu) = 1)"
    using cpuset_stop_first_stop [OF n] by blast
next
  assume "cpuset_adaptive_nohz e \<and> \<not> is_idle_task e
         \<and> (tick_stopped (ts_of k cpu) \<or> nohz_mode (ts_of k cpu) \<noteq> NOHZ_MODE_INACTIVE)
         \<and> fst (can_stop_adaptive_tick cpu e k)
         \<and> (irq_regs e = Some True \<or> \<not> current_mm e)"
  then have g: "cpuset_adaptive_nohz e" "\<not> is_idle_task e"
    "tick_stopped (ts_of k cpu) \<or> nohz_mode (ts_of k cpu) \<noteq> NOHZ_MODE_INACTIVE"
    "fst (can_stop_adaptive_tick cpu e k)" "irq_regs e = Some True \<or> \<not> current_mm e"
    by simp_all
  note D = cpuset_stop_delegates [OF g, of now]
  show "\<forall>r k1. tick_nohz_stop_sched_tick now cpu e (snd (can_stop_adaptive_tick cpu e k))
                    = Some (r, k1) \<longrightarrow>
              (\<exists>k'. tick_nohz_cpuset_stop_tick cpu now e k = Some k'
                  \<and> tick_stopped (ts_of k' cpu) = tick_stopped (ts_of k1 cpu))"
    using D by blast
next
  assume "cpuset_adaptive_nohz e \<and> \<not> is_idle_task e
         \<and> (tick_stopped (ts_of k cpu) \<or> nohz_mode (ts_of k cpu) \<noteq> NOHZ_MODE_INACTIVE)
         \<and> fst (can_stop_adaptive_tick cpu e k)
         \<and> (irq_regs e = Some True \<or> \<not> current_mm e)"
    and t: "tick_nohz_stop_sched_tick now cpu e (snd (can_stop_adaptive_tick cpu e k)) = None"
  then have g: "cpuset_adaptive_nohz e" "\<not> is_idle_task e"
    "tick_stopped (ts_of k cpu) \<or> nohz_mode (ts_of k cpu) \<noteq> NOHZ_MODE_INACTIVE"
    "fst (can_stop_adaptive_tick cpu e k)" "irq_regs e = Some True \<or> \<not> current_mm e"
    by simp_all
  show "tick_nohz_cpuset_stop_tick cpu now e k = None"
    using cpuset_stop_delegates [OF g, of now] t by blast
qed

lemma busy_stop_run:
  assumes e: "interference e = []" "\<not> rcu_needs_cpu e" "\<not> printk_needs_cpu e"
    "\<not> arch_needs_cpu e" "get_next_timer_interrupt e 100 = 150"
    "max_deferment e = 4000000000" "hrtimer_armed e"
  defines "ka \<equiv> atomic_inc (set_ts 0 ((ts_of busy_kernel 0)\<lparr>user_nohz := True\<rparr>) busy_kernel)"
  shows "tick_nohz_stop_sched_tick 100000100 0 e ka =
     Some (stop_tick_out 100000100 0 150 100 150000000
       (hrtimer_start 0 150000000 True
          (set_ts 0 ((ts_of ka 0)
               \<lparr>do_timer_last := False, last_tick := 0, tick_stopped := True\<rparr>) ka)))"
proof -
  have f: "tick_do_timer_cpu ka = 1" "nr_cpus_user_nohz ka = 1" "jiffies ka = 100"
    "ts_of ka 1 = boot_tick_sched"
    "ts_of ka 0 = boot_tick_sched\<lparr>nohz_mode := NOHZ_MODE_HIGHRES, user_nohz := True\<rparr>"
    "last_jiffies_update (xtime ka) = 100000000" "tick_period (xtime ka) = 1000000"
    "next_event (per_cpu ka 0) = 0"
    by (simp_all add: ka_def busy_facts)
  have n: "(0::c_int) \<noteq> TICK_DO_TIMER_NONE" "(1::c_int) \<noteq> TICK_DO_TIMER_NONE"
    "(150000000::ktime_t) \<noteq> KTIME_MAX"
    by (simp_all add: TICK_DO_TIMER_NONE_def KTIME_MAX_def)
  have d: "check_drop_timer_duty 0 e ka =
      \<lparr>duty_handler = 1, duty_nrepeat = 0, duty_warned = False, duty_sched = [],
       duty_kernel = ka\<rparr>"
    by (simp add: duty_quiet e f n word_sless_alt) (simp add: boot_tick_sched_def)
  have dl: "stop_tick_delta e ka = (100, 150, 50)"
    by (simp add: stop_tick_delta_def e f)
  have x: "stop_tick_expires 0 1 1 50 e ka =
           (150000000, set_ts 0 ((ts_of ka 0)\<lparr>do_timer_last := False\<rparr>) ka)"
    by (simp add: stop_tick_expires_def Let_def e f n NEXT_TIMER_MAX_DELTA_def
        ktime_add_ns_def) (simp add: KTIME_MAX_def)
  show ?thesis
    by (simp add: tick_nohz_stop_sched_tick_def dl d x e f n Let_def word_sle_eq)
       (simp add: boot_tick_sched_def)
qed

lemma kthread_env_facts:
  "cpuset_adaptive_nohz kthread_env" "\<not> is_idle_task kthread_env"
  "irq_regs kthread_env = Some False" "\<not> current_mm kthread_env"
  "sched_can_stop_tick kthread_env" "\<not> posix_cpu_timers_running kthread_env"
  "\<not> rcu_pending kthread_env" "interference kthread_env = []"
  "\<not> rcu_needs_cpu kthread_env" "\<not> printk_needs_cpu kthread_env"
  "\<not> arch_needs_cpu kthread_env"
  "get_next_timer_interrupt kthread_env 100 = 150" "max_deferment kthread_env = 4000000000"
  "hrtimer_armed kthread_env"
  by (simp_all add: kthread_env_def user_env_def quiet_env_def)

theorem C7_tick_nohz_cpuset_stop_tick_witness:
  "(\<exists>k'. tick_nohz_cpuset_stop_tick 0 100000100 syscall_env busy_kernel = Some k'
        \<and> \<not> tick_stopped (ts_of k' 0) \<and> \<not> TIF_NOHZ (per_cpu k' 0)
        \<and> saved_jiffies_whence (ts_of k' 0) = JIFFIES_SAVED_NONE)
   \<and> \<not> tick_stopped (ts_of busy_kernel 0)
   \<and> (\<exists>k'. tick_nohz_cpuset_stop_tick 0 100000100 user_env busy_kernel = Some k'
        \<and> tick_stopped (ts_of k' 0)
        \<and> saved_jiffies_whence (ts_of k' 0) = JIFFIES_SAVED_USER
        \<and> saved_jiffies (ts_of k' 0) = jiffies k'
        \<and> TIF_NOHZ (per_cpu k' 0) \<and> nohz_task_ext_qs (per_cpu k' 0) = 1)
   \<and> (\<exists>k'. tick_nohz_cpuset_stop_tick 0 100000100 kthread_env busy_kernel = Some k'
        \<and> tick_stopped (ts_of k' 0)
        \<and> saved_jiffies_whence (ts_of k' 0) = JIFFIES_SAVED_SYS
        \<and> saved_jiffies (ts_of k' 0) = jiffies k'
        \<and> TIF_NOHZ (per_cpu k' 0))"
proof -
  let ?ka = "atomic_inc (set_ts 0 ((ts_of busy_kernel 0)\<lparr>user_nohz := True\<rparr>) busy_kernel)"
  have b: "\<not> tick_stopped (ts_of busy_kernel 0)" "\<not> TIF_NOHZ (per_cpu busy_kernel 0)"
    "saved_jiffies_whence (ts_of busy_kernel 0) = JIFFIES_SAVED_NONE"
    "nohz_mode (ts_of busy_kernel 0) \<noteq> NOHZ_MODE_INACTIVE"
    "\<not> user_nohz (ts_of busy_kernel 0)"
    by (simp_all add: busy_facts boot_tick_sched_def)
       (simp add: busy_kernel_def example_defs state_defs)
  \<comment> \<open>interrupted in kernel mode\<close>
  from C7_tick_nohz_cpuset_stop_tick [of syscall_env 0 100000100 busy_kernel, THEN conjunct1]
  obtain k1 where s: "tick_nohz_cpuset_stop_tick 0 100000100 syscall_env busy_kernel = Some k1"
    "ts_of k1 0 = (ts_of busy_kernel 0)\<lparr>user_nohz := user_nohz (ts_of k1 0)\<rparr>"
    "TIF_NOHZ (per_cpu k1 0) = TIF_NOHZ (per_cpu busy_kernel 0)"
    by (auto simp: syscall_env_facts)
  have s1: "\<not> tick_stopped (ts_of k1 0)"
    "saved_jiffies_whence (ts_of k1 0) = JIFFIES_SAVED_NONE"
    by (subst s(2), simp add: b)+
  have 1: "\<exists>k'. tick_nohz_cpuset_stop_tick 0 100000100 syscall_env busy_kernel = Some k'
        \<and> \<not> tick_stopped (ts_of k' 0) \<and> \<not> TIF_NOHZ (per_cpu k' 0)
        \<and> saved_jiffies_whence (ts_of k' 0) = JIFFIES_SAVED_NONE"
    using s s1 b by auto
  \<comment> \<open>interrupted in user mode\<close>
  have cu: "can_stop_adaptive_tick 0 user_env busy_kernel = (True, ?ka)"
    by (simp add: can_stop_adaptive_tick_def Let_def user_env_facts b)
  have ru: "tick_nohz_stop_sched_tick 100000100 0 user_env
              (snd (can_stop_adaptive_tick 0 user_env busy_kernel)) =
     Some (stop_tick_out 100000100 0 150 100 150000000
       (hrtimer_start 0 150000000 True
          (set_ts 0 ((ts_of ?ka 0)
               \<lparr>do_timer_last := False, last_tick := 0, tick_stopped := True\<rparr>) ?ka)))"
    unfolding cu snd_conv by (rule busy_stop_run) (simp_all add: user_env_facts)
  note U = C7_tick_nohz_cpuset_stop_tick [of user_env 0 100000100 busy_kernel]
  from U [THEN conjunct2, THEN conjunct2] ru
  obtain k2 where u: "tick_nohz_cpuset_stop_tick 0 100000100 user_env busy_kernel = Some k2"
    "tick_stopped (ts_of k2 0)"
    by (auto simp: user_env_facts b cu stop_tick_out_def)
  from U [THEN conjunct2, THEN conjunct1] u b
  have 2: "\<exists>k'. tick_nohz_cpuset_stop_tick 0 100000100 user_env busy_kernel = Some k'
        \<and> tick_stopped (ts_of k' 0)
        \<and> saved_jiffies_whence (ts_of k' 0) = JIFFIES_SAVED_USER
        \<and> saved_jiffies (ts_of k' 0) = jiffies k'
        \<and> TIF_NOHZ (per_cpu k' 0) \<and> nohz_task_ext_qs (per_cpu k' 0) = 1"
    by (auto simp: user_env_facts)
  \<comment> \<open>a kernel thread\<close>
  have ck: "can_stop_adaptive_tick 0 kthread_env busy_kernel = (True, ?ka)"
    by (simp add: can_stop_adaptive_tick_def Let_def kthread_env_facts b)
  have rk: "tick_nohz_stop_sched_tick 100000100 0 kthread_env
              (snd (can_stop_adaptive_tick 0 kthread_env busy_kernel)) =
     Some (stop_tick_out 100000100 0 150 100 150000000
       (hrtimer_start 0 150000000 True
          (set_ts 0 ((ts_of ?ka 0)
               \<lparr>do_timer_last := False, last_tick := 0, tick_stopped := True\<rparr>) ?ka)))"
    unfolding ck snd_conv by (rule busy_stop_run) (simp_all add: kthread_env_facts)
  note K = C7_tick_nohz_cpuset_stop_tick [of kthread_env 0 100000100 busy_kernel]
  from K [THEN conjunct2, THEN conjunct2] rk
  obtain k3 where t: "tick_nohz_cpuset_stop_tick 0 100000100 kthread_env busy_kernel = Some k3"
    "tick_stopped (ts_of k3 0)"
    by (auto simp: kthread_env_facts b ck stop_tick_out_def)
  from K [THEN conjunct2, THEN conjunct1] t b
  have 3: "\<exists>k'. tick_nohz_cpuset_stop_tick 0 100000100 kthread_env busy_kernel = Some k'
        \<and> tick_stopped (ts_of k' 0)
        \<and> saved_jiffies_whence (ts_of k' 0) = JIFFIES_SAVED_SYS
        \<and> saved_jiffies (ts_of k' 0) = jiffies k'
        \<and> TIF_NOHZ (per_cpu k' 0)"
    by (auto simp: kthread_env_facts)
  show ?thesis using 1 2 3 b by blast
qed

section \<open>Stopping a stopped tick again (C6)\<close>

lemma stop_tick_expires_simps [simp]:
  "calls (snd (stop_tick_expires cpu p n dj e k)) = calls k"
  "next_event (per_cpu (snd (stop_tick_expires cpu p n dj e k)) c) = next_event (per_cpu k c)"
  "xtime (snd (stop_tick_expires cpu p n dj e k)) = xtime k"
  by (simp_all add: stop_tick_expires_def Let_def split_beta)

















section \<open>The counter of busy-adaptive CPUs (C4)\<close>

lemma card_valid_cpus: "card {c. valid_cpu n c} \<le> 2 ^ 31 - 1"
proof -
  have "sint ` {c. valid_cpu n c} \<subseteq> {0 ..< 2 ^ 31 - 1}"
  proof
    fix x assume "x \<in> sint ` {c. valid_cpu n c}"
    then obtain c :: c_int where c: "x = sint c" "0 \<le> sint c" "sint c < sint n"
      by (auto simp: valid_cpu_def word_sle_eq word_sless_alt)
    have "sint n < 2 ^ 31" using sint_lt [of n] by simp
    then show "x \<in> {0 ..< 2 ^ 31 - 1}" using c by simp
  qed
  then have "card (sint ` {c :: c_int. valid_cpu n c}) \<le> card {0 :: int ..< 2 ^ 31 - 1}"
    by (intro card_mono) auto
  moreover have "card (sint ` {c :: c_int. valid_cpu n c}) = card {c :: c_int. valid_cpu n c}"
    by (intro card_image inj_onI) (rule signed_word_eqI)
  ultimately show ?thesis by simp
qed

lemma counter_inv_set:
  assumes inv: "counter_inv n k" and v: "valid_cpu n cpu" and f: "cpu \<notin> marked_cpus k"
    and m: "marked_cpus k' = insert cpu (marked_cpus k)"
    and c: "nr_cpus_user_nohz k' = nr_cpus_user_nohz k + 1"
  shows "counter_inv n k'"
proof -
  have fin: "finite (marked_cpus k)" by simp
  have sub: "insert cpu (marked_cpus k) \<subseteq> {c. valid_cpu n c}"
    using inv v by (auto simp: counter_inv_def)
  have "card (insert cpu (marked_cpus k)) \<le> card {c. valid_cpu n c}"
    by (intro card_mono sub) simp
  then have "card (marked_cpus k) + 1 \<le> 2 ^ 31 - 1"
    using card_valid_cpus [of n] f fin by simp
  then have "card (marked_cpus k) + 1 \<le> 2147483647" by simp
  then have b: "int (card (marked_cpus k)) + 1 < 2 ^ 31" by simp
  have "sint (nr_cpus_user_nohz k + 1) = sint (nr_cpus_user_nohz k) + 1"
    using sint_add_of_int_no_ovf [of "nr_cpus_user_nohz k" 1] inv b
    by (simp add: counter_inv_def)
  then show ?thesis
    using inv sub f fin unfolding counter_inv_def m c by simp
qed

lemma counter_inv_clear:
  assumes inv: "counter_inv n k" and f: "cpu \<in> marked_cpus k"
    and m: "marked_cpus k' = marked_cpus k - {cpu}"
    and c: "nr_cpus_user_nohz k' = nr_cpus_user_nohz k - 1"
  shows "counter_inv n k'"
proof -
  have fin: "finite (marked_cpus k)" by simp
  have pos: "0 < card (marked_cpus k)" using f fin by (auto simp: card_gt_0_iff)
  have "nr_cpus_user_nohz k - 1 = nr_cpus_user_nohz k + word_of_int (- 1)" by simp
  moreover have "sint (nr_cpus_user_nohz k + word_of_int (- 1)) = sint (nr_cpus_user_nohz k) + (- 1)"
    using inv pos sint_lt [of "nr_cpus_user_nohz k"]
    by (intro sint_add_of_int_no_ovf) (simp_all add: counter_inv_def)
  ultimately have "sint (nr_cpus_user_nohz k - 1) = sint (nr_cpus_user_nohz k) - 1" by simp
  then show ?thesis
    using inv f fin pos unfolding counter_inv_def m c by (auto simp: card_Diff_singleton)
qed

lemma counter_inv_same:
  assumes "counter_inv n k" "marked_cpus k' = marked_cpus k"
    "nr_cpus_user_nohz k' = nr_cpus_user_nohz k"
  shows "counter_inv n k'"
  using assms by (simp add: counter_inv_def)

lemma same_marks_refl [simp]: "same_marks k k"
  by (simp add: same_marks_def)

lemma same_marks_trans: "same_marks k k1 \<Longrightarrow> same_marks k1 k2 \<Longrightarrow> same_marks k k2"
  by (simp add: same_marks_def)

lemma same_marks_marked: "same_marks k k' \<Longrightarrow> marked_cpus k' = marked_cpus k"
  by (simp add: same_marks_def marked_cpus_def)

lemma counter_inv_frame: "counter_inv n k \<Longrightarrow> same_marks k k' \<Longrightarrow> counter_inv n k'"
  using counter_inv_same [of n k k'] same_marks_marked [of k k']
  by (simp add: same_marks_def)

lemma counter_inv_mark:
  assumes "counter_inv n k" "valid_cpu n cpu" "\<not> user_nohz (ts_of k cpu)"
  shows "counter_inv n (atomic_inc (set_ts cpu ((ts_of k cpu)\<lparr>user_nohz := True\<rparr>) k))"
proof (rule counter_inv_set [OF assms(1,2)])
  show "cpu \<notin> marked_cpus k" using assms(3) by (simp add: marked_cpus_def)
  show "marked_cpus (atomic_inc (set_ts cpu ((ts_of k cpu)\<lparr>user_nohz := True\<rparr>) k))
          = insert cpu (marked_cpus k)"
    by (rule set_eqI) (simp add: marked_cpus_def)
  show "nr_cpus_user_nohz (atomic_inc (set_ts cpu ((ts_of k cpu)\<lparr>user_nohz := True\<rparr>) k))
          = nr_cpus_user_nohz k + 1"
    by simp
qed

lemma counter_inv_unmark:
  assumes "counter_inv n k" "user_nohz (ts_of k cpu)"
  shows "counter_inv n (clear_user_nohz cpu k)"
proof (rule counter_inv_clear [OF assms(1)])
  show "cpu \<in> marked_cpus k" using assms(2) by (simp add: marked_cpus_def)
  show "marked_cpus (clear_user_nohz cpu k) = marked_cpus k - {cpu}"
    by (rule set_eqI) (simp add: marked_cpus_def)
  show "nr_cpus_user_nohz (clear_user_nohz cpu k) = nr_cpus_user_nohz k - 1"
    by simp
qed

lemma counter_inv_adaptive:
  assumes "counter_inv n k" "valid_cpu n cpu"
  shows "counter_inv n (snd (can_stop_adaptive_tick cpu e k))"
  using assms counter_inv_mark [of n k cpu] counter_inv_unmark [of n k cpu]
  by (simp add: can_stop_adaptive_tick_def Let_def)

lemma start_idle_marks:
  "same_marks (if user_nohz (ts_of k cpu) then clear_user_nohz cpu k else k)
     (tick_nohz_start_idle cpu now k)"
  by (simp add: tick_nohz_start_idle_def Let_def same_marks_def)

lemma counter_inv_start_idle:
  assumes "counter_inv n k"
  shows "counter_inv n (tick_nohz_start_idle cpu now k)"
  using assms counter_inv_unmark [of n k cpu] start_idle_marks [of k cpu now]
    counter_inv_frame by (cases "user_nohz (ts_of k cpu)") auto

lemma counter_inv_env:
  assumes "counter_inv n k" "case s of Env_user_nohz c _ \<Rightarrow> valid_cpu n c | _ \<Rightarrow> True"
  shows "counter_inv n (env_apply s k)"
proof (cases s)
  case (Env_user_nohz c b)
  then show ?thesis
    using assms counter_inv_mark [of n k c] counter_inv_unmark [of n k c] by auto
next
  case (Env_store_do_timer_cpu c)
  then show ?thesis using assms(1) by (auto intro: counter_inv_frame simp: same_marks_def)
qed (use assms in simp)

lemma counter_inv_duty:
  assumes "counter_inv n k" "env_valid n e"
  shows "counter_inv n (duty_kernel (check_drop_timer_duty cpu e k))"
  unfolding check_drop_timer_duty_def
proof (rule duty_from_keeps [where P = "counter_inv n"])
  fix s and k' :: kernel assume "s \<in> set (interference e)" "counter_inv n k'"
  then show "counter_inv n (env_apply s k')"
    using assms(2) counter_inv_env [of n k' s] by (auto simp: env_valid_def)
next
  fix k' :: kernel and c assume "counter_inv n k'"
  then show "counter_inv n (k'\<lparr>tick_do_timer_cpu := c\<rparr>)"
    by (auto intro: counter_inv_frame simp: same_marks_def)
next
  fix k' :: kernel assume "counter_inv n k'"
  then show "counter_inv n (trace Warn_on_once k')"
    by (auto intro: counter_inv_frame simp: same_marks_def)
qed (use assms in simp)

lemma stop_tick_expires_marks:
  "user_nohz (ts_of (snd (stop_tick_expires cpu p h dj e k)) c) = user_nohz (ts_of k c)"
  "nr_cpus_user_nohz (snd (stop_tick_expires cpu p h dj e k)) = nr_cpus_user_nohz k"
  by (simp_all add: stop_tick_expires_def Let_def split_beta)

lemma stop_tick_marks:
  assumes r: "tick_nohz_stop_sched_tick now cpu e k = Some (ret, k')"
  shows "same_marks k k' \<or> same_marks (duty_kernel (check_drop_timer_duty cpu e k)) k'"
proof -
  obtain last_j next_j dj where d: "stop_tick_delta e k = (last_j, next_j, dj)"
    by (cases "stop_tick_delta e k")
  let ?d = "check_drop_timer_duty cpu e k"
  obtain E k1 where ex: "stop_tick_expires cpu (tick_do_timer_cpu k) (duty_handler ?d) dj e
      (duty_kernel ?d) = (E, k1)"
    by (cases "stop_tick_expires cpu (tick_do_timer_cpu k) (duty_handler ?d) dj e (duty_kernel ?d)")
  have k1: "user_nohz (ts_of k1 c) = user_nohz (ts_of (duty_kernel ?d) c)"
    "nr_cpus_user_nohz k1 = nr_cpus_user_nohz (duty_kernel ?d)" for c
    using stop_tick_expires_marks [of cpu "tick_do_timer_cpu k" "duty_handler ?d" dj e
        "duty_kernel ?d"] ex by simp_all
  show ?thesis
  proof (cases "(tick_stopped (ts_of k cpu) \<or> dj \<noteq> 1) \<and> 1 <=s dj")
    case False
    then have "same_marks k k'"
      using r d by (auto simp: tick_nohz_stop_sched_tick_def Let_def same_marks_def stop_tick_out_def
          split: if_splits)
    then show ?thesis ..
  next
    case True
    note g = this
    show ?thesis
    proof (cases "duty_handler ?d = cpu")
      case True
      then have "same_marks (duty_kernel ?d) k'"
        using r d g by (auto simp: tick_nohz_stop_sched_tick_def Let_def same_marks_def stop_tick_out_def
          split: if_splits)
      then show ?thesis ..
    next
      case False
      have n: "nr_cpus_user_nohz k' = nr_cpus_user_nohz k1"
        using r d g False ex
        by (auto simp: tick_nohz_stop_sched_tick_def Let_def stop_tick_out_def
            split: if_splits option.splits)
      have u: "user_nohz (ts_of k' c) = user_nohz (ts_of k1 c)" for c
        using r d g False ex
        by (auto simp: tick_nohz_stop_sched_tick_def Let_def stop_tick_out_def
            split: if_splits option.splits)
      have "same_marks (duty_kernel ?d) k'" using n u k1 by (simp add: same_marks_def)
      then show ?thesis ..
    qed
  qed
qed

lemma counter_inv_stop_tick:
  assumes "counter_inv n k" "env_valid n e"
    "tick_nohz_stop_sched_tick now cpu e k = Some (r, k')"
  shows "counter_inv n k'"
  using stop_tick_marks [OF assms(3)] counter_inv_duty [OF assms(1,2), of cpu] assms(1)
    counter_inv_frame by blast

lemma can_stop_idle_tick_marks: "same_marks k (snd (can_stop_idle_tick cpu e k))"
  by (simp add: can_stop_idle_tick_def Let_def same_marks_def)

lemma idle_enter_stopped_marks: "same_marks k (idle_enter_stopped w cpu (r, k))"
  by (simp add: idle_enter_stopped_def Let_def same_marks_def)

lemma counter_inv_idle_enter:
  assumes inv: "counter_inv n k" and e: "env_valid n e"
    and r: "tick_nohz_idle_enter_inner cpu now e k = Some k'"
  shows "counter_inv n k'"
proof -
  let ?k1 = "tick_nohz_start_idle cpu now k"
  let ?k2 = "snd (can_stop_idle_tick cpu e ?k1)"
  let ?k3 = "set_ts cpu ((ts_of ?k2 cpu)\<lparr>idle_calls := idle_calls (ts_of ?k2 cpu) + 1\<rparr>) ?k2"
  have i2: "counter_inv n ?k2"
    using counter_inv_start_idle [OF inv] can_stop_idle_tick_marks counter_inv_frame by blast
  have i3: "counter_inv n ?k3"
    by (rule counter_inv_frame [OF i2]) (simp add: same_marks_def)
  show ?thesis
  proof (cases "fst (can_stop_idle_tick cpu e ?k1)")
    case False
    then show ?thesis using r i2 by (simp add: tick_nohz_idle_enter_inner_def Let_def split_beta)
  next
    case True
    then obtain x k4 where s: "tick_nohz_stop_sched_tick now cpu e ?k3 = Some (x, k4)"
      and k': "k' = idle_enter_stopped (tick_stopped (ts_of ?k2 cpu)) cpu (x, k4)"
      using r by (auto simp: tick_nohz_idle_enter_inner_def Let_def split_beta)
    have "counter_inv n k4" using counter_inv_stop_tick [OF i3 e s] .
    then show ?thesis
      unfolding k' using idle_enter_stopped_marks counter_inv_frame by blast
  qed
qed

lemma counter_inv_cpuset_stop:
  assumes inv: "counter_inv n k" and v: "valid_cpu n cpu" and e: "env_valid n e"
    and r: "tick_nohz_cpuset_stop_tick cpu now e k = Some k'"
  shows "counter_inv n k'"
proof -
  let ?k1 = "snd (can_stop_adaptive_tick cpu e k)"
  have i1: "counter_inv n ?k1" using counter_inv_adaptive [OF inv v] .
  have "k' = k \<or> k' = ?k1
      \<or> (\<exists>x k2. tick_nohz_stop_sched_tick now cpu e ?k1 = Some (x, k2) \<and> same_marks k2 k')"
    using r
    by (auto simp: tick_nohz_cpuset_stop_tick_def Let_def split_beta same_marks_def
        split: if_splits option.splits)
  then show ?thesis
    using inv i1 counter_inv_stop_tick [OF i1 e] counter_inv_frame by blast
qed

lemma restart_loop_marks:
  "tick_nohz_restart_loop answers cpu now k = Some k' \<Longrightarrow> same_marks k k'"
proof (induction answers arbitrary: now k)
  case Nil
  then show ?case by simp
next
  case (Cons a answers)
  obtain armed now' where a: "a = (armed, now')" by (cases a)
  obtain timer where f: "hrtimer_forward (sched_timer (ts_of k cpu)) now (tick_period (xtime k))
      = Some timer"
    using Cons.prems a by (auto split: option.splits)
  let ?k0 = "set_ts cpu ((ts_of k cpu)\<lparr>sched_timer := timer\<rparr>) k"
  let ?k1 = "if nohz_mode (ts_of ?k0 cpu) = NOHZ_MODE_HIGHRES
             then hrtimer_start cpu (hrtimer_get_expires timer) armed ?k0
             else tick_program_event cpu (hrtimer_get_expires timer) ?k0"
  have m: "same_marks k ?k1" by (simp add: same_marks_def)
  show ?case
  proof (cases armed)
    case True
    then have "k' = ?k1" using Cons.prems a f by (auto simp: Let_def)
    then show ?thesis using m by simp
  next
    case False
    show ?thesis
    proof (cases "tick_do_update_jiffies64 now (xtime ?k1)")
      case None
      with False show ?thesis using Cons.prems a f by (simp add: Let_def cong: if_cong)
    next
      case (Some tb)
      with False have l: "tick_nohz_restart_loop answers cpu now' (?k1\<lparr>xtime := tb\<rparr>) = Some k'"
        using Cons.prems a f by (simp add: Let_def cong: if_cong)
      have "same_marks (?k1\<lparr>xtime := tb\<rparr>) k'" using Cons.IH [OF l] .
      moreover have "same_marks k (?k1\<lparr>xtime := tb\<rparr>)" by (simp add: same_marks_def)
      ultimately show ?thesis by (rule same_marks_trans [rotated])
    qed
  qed
qed

lemma restart_marks:
  assumes "tick_nohz_restart cpu now e k = Some k'"
  shows "same_marks k k'"
proof -
  let ?k0 = "hrtimer_cancel cpu k"
  let ?k1 = "set_ts cpu ((ts_of ?k0 cpu)\<lparr>sched_timer :=
               (sched_timer (ts_of ?k0 cpu))\<lparr>hrtimer_get_expires := last_tick (ts_of ?k0 cpu)\<rparr>\<rparr>) ?k0"
  have "tick_nohz_restart_loop (rearm e) cpu now ?k1 = Some k'"
    using assms unfolding tick_nohz_restart_def Let_def .
  then have "same_marks ?k1 k'" by (rule restart_loop_marks)
  moreover have "same_marks k ?k1" by (simp add: same_marks_def)
  ultimately show ?thesis by (rule same_marks_trans [rotated])
qed

lemma restart_sched_tick_marks:
  assumes "tick_nohz_restart_sched_tick cpu now e k = Some k'"
  shows "same_marks k k'"
proof (cases "tick_stopped (ts_of k cpu)")
  case False
  then show ?thesis using assms by (simp add: tick_nohz_restart_sched_tick_def)
next
  case True
  then obtain tb where tb: "tick_do_update_jiffies64 now (xtime k) = Some tb"
    using assms
    by (auto simp: tick_nohz_restart_sched_tick_def tick_nohz_restart_sched_tick_inner_def
        split: option.splits)
  let ?k0 = "trace Touch_softlockup_watchdog (k\<lparr>xtime := tb\<rparr>)"
  let ?k1 = "set_ts cpu ((ts_of ?k0 cpu)\<lparr>tick_stopped := False, idle_exittime := now\<rparr>) ?k0"
  have "tick_nohz_restart cpu now e ?k1 = Some k'"
    using assms True tb
    by (simp add: tick_nohz_restart_sched_tick_def tick_nohz_restart_sched_tick_inner_def
        Let_def)
  then have "same_marks ?k1 k'" by (rule restart_marks)
  moreover have "same_marks k ?k1" by (simp add: same_marks_def)
  ultimately show ?thesis by (rule same_marks_trans [rotated])
qed

lemma flush_marks: "same_marks k (tick_nohz_flush_current_times cpu b k)"
  by (simp add: tick_nohz_flush_current_times_def tick_nohz_account_ticks_def Let_def
      same_marks_def split: jiffies_whence.splits)

lemma counter_inv_restart_adaptive:
  assumes inv: "counter_inv n k"
    and r: "tick_nohz_restart_adaptive cpu now e k = Some k'"
  shows "counter_inv n k'"
proof -
  let ?k1 = "tick_nohz_flush_current_times cpu True k"
  let ?k2 = "if user_nohz (ts_of ?k1 cpu) then clear_user_nohz cpu ?k1 else ?k1"
  have i1: "counter_inv n ?k1" using counter_inv_frame [OF inv flush_marks] .
  have i2: "counter_inv n ?k2" using i1 counter_inv_unmark [of n ?k1 cpu] by simp
  obtain k3 where s: "tick_nohz_restart_sched_tick cpu now e ?k2 = Some k3"
    and k': "k' = tick_nohz_cpu_exit_qs cpu True (set_thread_flag_TIF_NOHZ cpu False k3)"
    using r by (auto simp: tick_nohz_restart_adaptive_def Let_def split: option.splits)
  have i3: "counter_inv n k3" using counter_inv_frame [OF i2 restart_sched_tick_marks [OF s]] .
  have "same_marks k3 k'"
    unfolding k' by (simp add: tick_nohz_cpu_exit_qs_def same_marks_def)
  then show ?thesis using counter_inv_frame [OF i3] by simp
qed

lemma counter_inv_check_adaptive:
  assumes inv: "counter_inv n k" and v: "valid_cpu n cpu"
    and r: "tick_nohz_check_adaptive cpu now e k = Some k'"
  shows "counter_inv n k'"
proof -
  let ?k1 = "snd (can_stop_adaptive_tick cpu e k)"
  have i1: "counter_inv n ?k1" using counter_inv_adaptive [OF inv v] .
  have "k' = k \<or> k' = ?k1 \<or> tick_nohz_restart_adaptive cpu now e ?k1 = Some k'"
    using r by (auto simp: tick_nohz_check_adaptive_def Let_def split_beta split: if_splits)
  then show ?thesis using inv i1 counter_inv_restart_adaptive [OF i1] by blast
qed

lemma reachable_counter_inv: "reachable n k \<Longrightarrow> counter_inv n k"
proof (induction rule: reachable.induct)
  case (boot k)
  then have "marked_cpus k = {}" by (simp add: marked_cpus_def)
  then show ?case using boot by (simp add: counter_inv_def)
next
  case (adaptive k cpu e)
  then show ?case by (simp add: counter_inv_adaptive)
next
  case (start_idle k cpu now)
  then show ?case by (simp add: counter_inv_start_idle)
next
  case (restart_adaptive k cpu now e k')
  then show ?case using counter_inv_restart_adaptive by blast
next
  case (cpuset_stop k cpu e now k')
  then show ?case using counter_inv_cpuset_stop by blast
next
  case (idle_enter k cpu e now k')
  then show ?case using counter_inv_idle_enter by blast
next
  case (check_adaptive k cpu now e k')
  then show ?case using counter_inv_check_adaptive by blast
next
  case (other k k')
  then show ?case using counter_inv_frame by blast
qed


lemma follows_from_inv:
  assumes i: "counter_inv n k" and i': "counter_inv n k'"
    and o: "\<forall>c. c \<noteq> cpu \<longrightarrow> user_nohz (ts_of k' c) = user_nohz (ts_of k c)"
  shows "counter_follows cpu k k'"
proof -
  have fin: "finite (marked_cpus k)" by simp
  have s: "sint (nr_cpus_user_nohz k) = int (card (marked_cpus k))"
    "sint (nr_cpus_user_nohz k') = int (card (marked_cpus k'))"
    using i i' by (simp_all add: counter_inv_def)
  consider (set) "user_nohz (ts_of k' cpu)" "\<not> user_nohz (ts_of k cpu)"
    | (clear) "\<not> user_nohz (ts_of k' cpu)" "user_nohz (ts_of k cpu)"
    | (same) "user_nohz (ts_of k' cpu) = user_nohz (ts_of k cpu)"
    by blast
  then have "int (card (marked_cpus k')) =
      int (card (marked_cpus k))
      + (if user_nohz (ts_of k' cpu) \<and> \<not> user_nohz (ts_of k cpu) then 1 else 0)
      - (if \<not> user_nohz (ts_of k' cpu) \<and> user_nohz (ts_of k cpu) then 1 else 0)"
  proof cases
    case set
    have "marked_cpus k' = insert cpu (marked_cpus k)"
      using o set by (auto simp: marked_cpus_def)
    moreover have "cpu \<notin> marked_cpus k" using set by (simp add: marked_cpus_def)
    ultimately show ?thesis using set fin by simp
  next
    case clear
    have "marked_cpus k' = marked_cpus k - {cpu}"
      using o clear by (auto simp: marked_cpus_def)
    moreover have "cpu \<in> marked_cpus k" using clear by (simp add: marked_cpus_def)
    moreover have "0 < card (marked_cpus k)"
      using calculation(2) fin by (auto simp: card_gt_0_iff)
    ultimately show ?thesis using clear fin by (simp add: card_Diff_singleton)
  next
    case same
    have "marked_cpus k' = marked_cpus k"
    proof (rule set_eqI)
      fix c show "c \<in> marked_cpus k' \<longleftrightarrow> c \<in> marked_cpus k"
        using o same by (cases "c = cpu") (simp_all add: marked_cpus_def)
    qed
    then show ?thesis using same by simp
  qed
  then show ?thesis using o s by (simp add: counter_follows_def)
qed

lemma restart_adaptive_others:
  assumes r: "tick_nohz_restart_adaptive cpu now e k = Some k'" and c: "c \<noteq> cpu"
  shows "user_nohz (ts_of k' c) = user_nohz (ts_of k c)"
proof -
  let ?k1 = "tick_nohz_flush_current_times cpu True k"
  let ?k2 = "if user_nohz (ts_of ?k1 cpu) then clear_user_nohz cpu ?k1 else ?k1"
  obtain k3 where s: "tick_nohz_restart_sched_tick cpu now e ?k2 = Some k3"
    and k': "k' = tick_nohz_cpu_exit_qs cpu True (set_thread_flag_TIF_NOHZ cpu False k3)"
    using r by (auto simp: tick_nohz_restart_adaptive_def Let_def split: option.splits)
  have "user_nohz (ts_of k' c) = user_nohz (ts_of k3 c)"
    unfolding k' by (simp add: tick_nohz_cpu_exit_qs_def)
  also have "\<dots> = user_nohz (ts_of ?k2 c)"
    using restart_sched_tick_marks [OF s] by (simp add: same_marks_def)
  also have "\<dots> = user_nohz (ts_of ?k1 c)" using c by simp
  also have "\<dots> = user_nohz (ts_of k c)"
    using flush_marks [of k cpu True] by (simp add: same_marks_def)
  finally show ?thesis .
qed

text \<open>
  Claim C4. Take as one step each function of the file that writes the marker or the
  counter, run on a CPU of the machine (each writes the marker of its own CPU and then
  the counter; no other code of the file writes either). In every state reached from the
  zeroed boot state by such steps, and by steps that leave both alone:
  \<^item> the counter \<^verbatim>\<open>nr_cpus_user_nohz\<close> is the number of CPUs whose \<^verbatim>\<open>user_nohz\<close> is set, and so
    it is not negative; only CPUs of the machine are marked;
  \<^item> the decrement shared by the three functions never finds the counter negative: its
    \<^verbatim>\<open>WARN_ON_ONCE\<close> stays silent;
  \<^item> \<^verbatim>\<open>can_stop_adaptive_tick\<close>, \<^verbatim>\<open>tick_nohz_start_idle\<close> and \<^verbatim>\<open>tick_nohz_restart_adaptive\<close>
    touch the marker of their own CPU only, and the counter goes up by one exactly when
    they set it and down by one exactly when they clear it.
\<close>

theorem C4_nr_cpus_user_nohz:
  assumes r: "reachable n k"
  shows "sint (nr_cpus_user_nohz k) = int (card (marked_cpus k))
       \<and> 0 \<le> sint (nr_cpus_user_nohz k)
       \<and> marked_cpus k \<subseteq> {c. valid_cpu n c}
       \<and> (\<forall>cpu. user_nohz (ts_of k cpu) \<longrightarrow> calls (clear_user_nohz cpu k) = calls k)
       \<and> (\<forall>cpu e. valid_cpu n cpu \<longrightarrow>
             counter_follows cpu k (snd (can_stop_adaptive_tick cpu e k)))
       \<and> (\<forall>cpu now. valid_cpu n cpu \<longrightarrow>
             counter_follows cpu k (tick_nohz_start_idle cpu now k))
       \<and> (\<forall>cpu now e k'. valid_cpu n cpu
             \<and> tick_nohz_restart_adaptive cpu now e k = Some k' \<longrightarrow>
             counter_follows cpu k k')"
proof -
  have i: "counter_inv n k" using r by (rule reachable_counter_inv)
  have a: "sint (nr_cpus_user_nohz k) = int (card (marked_cpus k))"
    and b: "marked_cpus k \<subseteq> {c. valid_cpu n c}"
    using i by (simp_all add: counter_inv_def)
  have c: "calls (clear_user_nohz cpu k) = calls k" if u: "user_nohz (ts_of k cpu)" for cpu
  proof -
    have "counter_inv n (clear_user_nohz cpu k)" using i u by (rule counter_inv_unmark)
    then have "0 \<le> sint (nr_cpus_user_nohz k - 1)" by (simp add: counter_inv_def)
    then show ?thesis by (simp add: word_sless_alt)
  qed
  have d: "counter_follows cpu k (snd (can_stop_adaptive_tick cpu e k))"
    if v: "valid_cpu n cpu" for cpu e
    using i counter_inv_adaptive [OF i v]
    by (rule follows_from_inv) (simp add: can_stop_adaptive_tick_frame)
  have e: "counter_follows cpu k (tick_nohz_start_idle cpu now k)" for cpu now
    using i counter_inv_start_idle [OF i]
  proof (rule follows_from_inv)
    show "\<forall>c. c \<noteq> cpu \<longrightarrow>
        user_nohz (ts_of (tick_nohz_start_idle cpu now k) c) = user_nohz (ts_of k c)"
      by (simp add: tick_nohz_start_idle_def Let_def)
  qed
  have f: "counter_follows cpu k k'"
    if "tick_nohz_restart_adaptive cpu now e k = Some k'" for cpu now e k'
    using i counter_inv_restart_adaptive [OF i that]
    by (rule follows_from_inv) (simp add: restart_adaptive_others [OF that])
  have z: "0 \<le> sint (nr_cpus_user_nohz k)" using a by simp
  show ?thesis using a z b c d e f by blast
qed

lemma two_marked_facts:
  "nr_cpus_user_nohz two_marked_kernel = 2"
  "user_nohz (ts_of two_marked_kernel 0)"
  "nr_cpus_user_nohz (tick_nohz_start_idle 0 5 two_marked_kernel) = 1"
  "\<not> user_nohz (ts_of (tick_nohz_start_idle 0 5 two_marked_kernel) 0)"
  "calls two_marked_kernel = []"
  by (simp_all add: two_marked_kernel_def can_stop_adaptive_tick_def tick_nohz_start_idle_def
      user_env_def quiet_env_def boot_kernel_def boot_cpu_local_def boot_tick_sched_def Let_def
      clear_user_nohz_def atomic_add_negative_def state_defs)

theorem C4_nr_cpus_user_nohz_witness:
  "reachable 4 two_marked_kernel
   \<and> card (marked_cpus two_marked_kernel) = 2
   \<and> nr_cpus_user_nohz two_marked_kernel = 2
   \<and> calls (clear_user_nohz 0 two_marked_kernel) = []
   \<and> counter_follows 0 two_marked_kernel (tick_nohz_start_idle 0 5 two_marked_kernel)
   \<and> nr_cpus_user_nohz (tick_nohz_start_idle 0 5 two_marked_kernel) = 1"
proof -
  have v: "valid_cpu 4 0" "valid_cpu 4 2"
    by (simp_all add: valid_cpu_def word_sle_eq word_sless_alt)
  have "reachable 4 boot_kernel"
    by (rule reachable.boot)
      (simp_all add: boot_kernel_def boot_cpu_local_def boot_tick_sched_def ts_of_def)
  then have "reachable 4 (snd (can_stop_adaptive_tick 0 user_env boot_kernel))"
    using v(1) by (rule reachable.adaptive)
  then have r: "reachable 4 two_marked_kernel"
    unfolding two_marked_kernel_def using v(2) by (rule reachable.adaptive)
  note C = C4_nr_cpus_user_nohz [OF r]
  have "int (card (marked_cpus two_marked_kernel)) = 2"
    using C [THEN conjunct1] by (simp add: two_marked_facts)
  then have c: "card (marked_cpus two_marked_kernel) = 2" by simp
  have w: "calls (clear_user_nohz 0 two_marked_kernel) = []"
    using C [THEN conjunct2, THEN conjunct2, THEN conjunct2, THEN conjunct1, rule_format,
        OF two_marked_facts(2)]
    by (simp add: two_marked_facts(5))
  have f: "counter_follows 0 two_marked_kernel (tick_nohz_start_idle 0 5 two_marked_kernel)"
    using C v(1) by simp
  show ?thesis using r c w f by (simp add: two_marked_facts)
qed

section \<open>The target CPU of a domain (C10)\<close>

lemma cpd_set_positive: "0 <s ncpus_per_dom conf \<Longrightarrow> 0 <s ncpus_per_dom (cpd_set val conf)"
  by (simp add: cpd_set_def)

lemma nohz_target_domain_start:
  fixes cpu n :: c_int
  assumes c: "0 \<le> sint cpu" and n: "0 < sint n"
  shows "sint (c_sdiv cpu n * n) = sint cpu div sint n * sint n"
proof -
  define q where "q = sint cpu div sint n"
  have q0: "0 \<le> q" using c n by (simp add: q_def pos_imp_zdiv_nonneg_iff)
  have sd: "sint cpu sdiv sint n = q"
    using c n q0 by (simp add: signed_divide_int_def sgn_if q_def)
  have le: "q * sint n \<le> sint cpu" unfolding q_def using n by (rule int_div_mult_le)
  have ge: "0 \<le> q * sint n" using q0 n by simp
  have lt: "sint cpu < 2 ^ 31" using sint_lt [of cpu] by simp
  have "c_sdiv cpu n * n = word_of_int (q * sint n)"
    by (simp add: c_sdiv_def sd)
  then have "sint (c_sdiv cpu n * n) = signed_take_bit (LENGTH(32) - 1) (q * sint n)"
    by (simp only: sint_sbintrunc')
  also have "\<dots> = q * sint n"
    using le ge lt by (intro signed_take_bit_int_eq_self) auto
  finally show ?thesis by (simp add: q_def)
qed

text \<open>
  Claim C10. For a CPU number in \<open>[0, NR_CPUS)\<close>, \<^verbatim>\<open>cpu_get_nohz_target\<close> returns the
  number itself when that CPU's \<open>nohz_on\<close> flag is zero; otherwise, with a positive
  \<open>ncpus_per_dom\<close>, it returns \<open>(cpu div ncpus_per_dom) * ncpus_per_dom\<close>, the first CPU of
  the domain, which lies between 0 and \<open>cpu\<close>. A number outside the range is returned
  unchanged.
\<close>

theorem C10_cpu_get_nohz_target:
  fixes conf :: nohz_conf and cpu :: c_int
  shows
   "(0 <=s cpu \<and> cpu <s NR_CPUS conf \<and> nohz_on conf cpu = 0 \<longrightarrow>
       cpu_get_nohz_target conf cpu = Some cpu)
    \<and> (0 <=s cpu \<and> cpu <s NR_CPUS conf \<and> nohz_on conf cpu \<noteq> 0
         \<and> 0 <s ncpus_per_dom conf \<longrightarrow>
       (\<exists>t. cpu_get_nohz_target conf cpu = Some t
          \<and> sint t = sint cpu div sint (ncpus_per_dom conf) * sint (ncpus_per_dom conf)
          \<and> 0 <=s t \<and> t <=s cpu))
    \<and> (\<not> (0 <=s cpu \<and> cpu <s NR_CPUS conf) \<longrightarrow>
       cpu_get_nohz_target conf cpu = Some cpu)"
proof (intro conjI impI)
  assume "0 <=s cpu \<and> cpu <s NR_CPUS conf \<and> nohz_on conf cpu = 0"
  then show "cpu_get_nohz_target conf cpu = Some cpu"
    by (simp add: cpu_get_nohz_target_def)
next
  assume h: "0 <=s cpu \<and> cpu <s NR_CPUS conf \<and> nohz_on conf cpu \<noteq> 0
         \<and> 0 <s ncpus_per_dom conf"
  let ?n = "ncpus_per_dom conf"
  let ?t = "c_sdiv cpu ?n * ?n"
  have c: "0 \<le> sint cpu" and n: "0 < sint ?n"
    using h by (simp_all add: word_sle_eq word_sless_alt)
  have ne: "?n \<noteq> 0" using n by auto
  have r: "cpu_get_nohz_target conf cpu = Some ?t"
    using h ne by (simp add: cpu_get_nohz_target_def)
  have s: "sint ?t = sint cpu div sint ?n * sint ?n"
    using c n by (rule nohz_target_domain_start)
  have "0 \<le> sint cpu div sint ?n" using c n by (simp add: pos_imp_zdiv_nonneg_iff)
  then have ge: "0 \<le> sint ?t" unfolding s using n by simp
  have le: "sint ?t \<le> sint cpu" unfolding s using n by (rule int_div_mult_le)
  show "\<exists>t. cpu_get_nohz_target conf cpu = Some t
          \<and> sint t = sint cpu div sint ?n * sint ?n \<and> 0 <=s t \<and> t <=s cpu"
    using r s ge le by (simp add: word_sle_eq)
next
  assume "\<not> (0 <=s cpu \<and> cpu <s NR_CPUS conf)"
  then show "cpu_get_nohz_target conf cpu = Some cpu"
    by (auto simp: cpu_get_nohz_target_def)
qed

theorem C10_cpu_get_nohz_target_witness:
  "cpu_get_nohz_target
      \<lparr>NR_CPUS = 16, ncpus_per_dom = 4, nohz_on = (\<lambda>c. if c = 6 then 1 else 0)\<rparr> 5 = Some 5
   \<and> (\<exists>t. cpu_get_nohz_target
      \<lparr>NR_CPUS = 16, ncpus_per_dom = 4, nohz_on = (\<lambda>c. if c = 6 then 1 else 0)\<rparr> 6 = Some t
        \<and> sint t = 4 \<and> 0 <=s t \<and> t <=s 6)
   \<and> cpu_get_nohz_target
      \<lparr>NR_CPUS = 16, ncpus_per_dom = 4, nohz_on = (\<lambda>c. if c = 6 then 1 else 0)\<rparr> 16 = Some 16
   \<and> cpu_get_nohz_target
      \<lparr>NR_CPUS = 16, ncpus_per_dom = 4, nohz_on = (\<lambda>c. if c = 6 then 1 else 0)\<rparr> (- 1)
        = Some (- 1)"
proof -
  let ?conf = "\<lparr>NR_CPUS = 16, ncpus_per_dom = 4,
                 nohz_on = (\<lambda>c. if c = 6 then 1 else 0)\<rparr> :: nohz_conf"
  have 1: "cpu_get_nohz_target ?conf 5 = Some 5"
    using C10_cpu_get_nohz_target [of 5 ?conf, THEN conjunct1] by (simp add: word_sle_eq word_sless_alt)
  have 2: "\<exists>t. cpu_get_nohz_target ?conf 6 = Some t \<and> sint t = 4 \<and> 0 <=s t \<and> t <=s 6"
    using C10_cpu_get_nohz_target [of 6 ?conf, THEN conjunct2, THEN conjunct1] by (simp add: word_sle_eq word_sless_alt)
  have 3: "cpu_get_nohz_target ?conf 16 = Some 16"
    using C10_cpu_get_nohz_target [of 16 ?conf, THEN conjunct2, THEN conjunct2] by (simp add: word_sle_eq word_sless_alt)
  have 4: "cpu_get_nohz_target ?conf (- 1) = Some (- 1)"
    using C10_cpu_get_nohz_target [of "- 1" ?conf, THEN conjunct2, THEN conjunct2] by (simp add: word_sle_eq word_sless_alt)
  show ?thesis using 1 2 3 4 by blast
qed

end
